theory Spec2Isabelle
  imports Main "HOL-Library.AList" "HOL-Library.List_Lexorder" "HOL-Library.Char_ord"
begin

section \<open>Targets and the build graph\<close>

text \<open>
  The module \<^verbatim>\<open>pants/backend/python/tasks/setup_py.py\<close> works on targets of a
  build graph. A target is identified by its address; the graph maps an address to the
  attributes of the target. The fields below are the attributes the module reads:
  \<^verbatim>\<open>target.address.spec_path\<close>, the class of the target (for the \<^verbatim>\<open>isinstance\<close>
  tests), \<^verbatim>\<open>target.provides\<close>, \<^verbatim>\<open>target.dependencies\<close>,
  \<^verbatim>\<open>target.provided_binaries\<close>, \<^verbatim>\<open>target.is_original\<close>,
  \<^verbatim>\<open>target.derived_from\<close> and \<^verbatim>\<open>target.payload.requirements\<close>.
\<close>

type_synonym address = nat

datatype target_class =
  PythonLibrary | PythonBinary | PythonDistribution | Resources | PythonRequirementLibrary
  | OtherTarget

record python_artifact =
  artifact_name :: string
  artifact_version :: string
  artifact_key :: string

record target =
  spec_path :: string
  target_class :: target_class
  provides :: "python_artifact option"
  dependencies_of :: "address list"
  provided_binaries :: "(string \<times> address) list"
  is_original :: bool
  derived_from :: address
  requirements :: "string list"

type_synonym build_graph = "(address \<times> target) list"

text \<open>
  An address the graph does not register stands for a target without attributes of
  interest: no dependencies, not a Python target, derived from itself.
\<close>

definition unregistered :: "address \<Rightarrow> target" where
  "unregistered a =
     \<lparr> spec_path = [], target_class = OtherTarget, provides = None, dependencies_of = [],
       provided_binaries = [], is_original = True, derived_from = a, requirements = [] \<rparr>"

definition get_target :: "build_graph \<Rightarrow> address \<Rightarrow> target" where
  "get_target g a = (case map_of g a of Some t \<Rightarrow> t | None \<Rightarrow> unregistered a)"

subsection \<open>The predicates of \<^verbatim>\<open>SetupPy\<close> and its \<^verbatim>\<open>DependencyCalculator\<close>\<close>

definition is_requirements :: "build_graph \<Rightarrow> address \<Rightarrow> bool" where
  "is_requirements g a = (target_class (get_target g a) = PythonRequirementLibrary)"

text \<open>
  \<^verbatim>\<open>PythonLibrary\<close>, \<^verbatim>\<open>PythonBinary\<close> and \<^verbatim>\<open>PythonDistribution\<close> are the subclasses
  of \<^verbatim>\<open>PythonTarget\<close>; \<^verbatim>\<open>is_local_python_dist\<close> holds of the last one only.
\<close>

definition is_python_target :: "build_graph \<Rightarrow> address \<Rightarrow> bool" where
  "is_python_target g a =
     (target_class (get_target g a) = PythonLibrary \<or> target_class (get_target g a) = PythonBinary
      \<or> target_class (get_target g a) = PythonDistribution)"

definition is_local_python_dist :: "build_graph \<Rightarrow> address \<Rightarrow> bool" where
  "is_local_python_dist g a = (target_class (get_target g a) = PythonDistribution)"

definition is_resources_target :: "build_graph \<Rightarrow> address \<Rightarrow> bool" where
  "is_resources_target g a = (target_class (get_target g a) = Resources)"

definition has_provides :: "build_graph \<Rightarrow> address \<Rightarrow> bool" where
  "has_provides g a = (is_python_target g a \<and> provides (get_target g a) \<noteq> None)"

definition requires_export :: "build_graph \<Rightarrow> address \<Rightarrow> bool" where
  "requires_export g a = (is_python_target g a \<or> is_resources_target g a)"

definition is_exported :: "build_graph \<Rightarrow> address \<Rightarrow> bool" where
  "is_exported g a = has_provides g a"

definition dependencies :: "build_graph \<Rightarrow> address \<Rightarrow> address list" where
  "dependencies g a =
     dependencies_of (get_target g a) @
     (if is_exported g a then map snd (provided_binaries (get_target g a)) else [])"

section \<open>The dependency walk\<close>

text \<open>
  \<^verbatim>\<open>_walk\<close> is a recursive depth-first walk that shares one \<^verbatim>\<open>visited\<close> set among all
  its calls. The pending calls of the recursion are kept here as an explicit stack: the
  head of the stack is the call \<^verbatim>\<open>walk(current)\<close> that runs next, and a visit that is
  told to keep going pushes the calls for the dependencies of the node in front of the
  calls still pending. \<^verbatim>\<open>visited\<close> is kept in the order of insertion, so it is also the
  sequence of the nodes the visitor was called on. The visitor reads and writes variables
  of its enclosing scope; they are the state \<open>'s\<close> passed through.
\<close>

definition nodes_of :: "build_graph \<Rightarrow> address set" where
  "nodes_of g = fst ` set g"

function walk ::
  "build_graph \<Rightarrow> (address \<Rightarrow> 's \<Rightarrow> bool \<times> 's) \<Rightarrow> address list \<Rightarrow> address list \<Rightarrow> 's
     \<Rightarrow> address list \<times> 's" where
  "walk g visitor [] visited s = (visited, s)"
| "walk g visitor (current # pending) visited s =
     (if current \<in> set visited then walk g visitor pending visited s
      else (case visitor current s of
              (keep_going, s') \<Rightarrow>
                walk g visitor ((if keep_going then dependencies g current else []) @ pending)
                  (visited @ [current]) s'))"
  by pat_completeness auto

lemma dependencies_unregistered: "a \<notin> nodes_of g \<Longrightarrow> dependencies g a = []"
proof -
  assume "a \<notin> nodes_of g"
  then have "map_of g a = None"
    by (simp add: nodes_of_def map_of_eq_None_iff)
  then show ?thesis
    by (simp add: dependencies_def get_target_def unregistered_def)
qed

lemma finite_nodes_of: "finite (nodes_of g)"
  by (simp add: nodes_of_def)

termination walk
proof (relation "measures
          [\<lambda>(g, visitor, pending, visited, s). card (nodes_of g - set visited),
           \<lambda>(g, visitor, pending, visited, s). length pending]",
       goal_cases)
  case 1
  show ?case by simp
next
  case (2 g visitor current pending visited s)
  show ?case by simp
next
  case (3 g visitor current pending visited s keep_going s')
  show ?case
  proof (cases "current \<in> nodes_of g")
    case True
    with 3 have "nodes_of g - set (visited @ [current]) \<subset> nodes_of g - set visited"
      by auto
    then have "card (nodes_of g - set (visited @ [current])) < card (nodes_of g - set visited)"
      by (intro psubset_card_mono) (simp_all add: finite_nodes_of)
    then show ?thesis by simp
  next
    case False
    then have "nodes_of g - set (visited @ [current]) = nodes_of g - set visited"
      by auto
    with False show ?thesis
      by (simp add: dependencies_unregistered)
  qed
qed

definition walk_from ::
  "build_graph \<Rightarrow> address \<Rightarrow> (address \<Rightarrow> 's \<Rightarrow> bool \<times> 's) \<Rightarrow> 's \<Rightarrow> address list \<times> 's" where
  "walk_from g t visitor s = walk g visitor [t] [] s"


text \<open>
  To speak about the calls of the visitor, \<open>traced\<close> wraps a visitor so that it also
  appends the node it is called on to a log, and changes nothing else.
\<close>

definition traced ::
  "(address \<Rightarrow> 's \<Rightarrow> bool \<times> 's) \<Rightarrow> address \<Rightarrow> address list \<times> 's \<Rightarrow> bool \<times> address list \<times> 's" where
  "traced visitor current cs =
     (case visitor current (snd cs) of (keep_going, s') \<Rightarrow> (keep_going, fst cs @ [current], s'))"

text \<open>All addresses that occur in a graph: the registered ones and their dependencies.\<close>

definition addresses_of :: "build_graph \<Rightarrow> address set" where
  "addresses_of g = nodes_of g \<union> (\<Union>a \<in> nodes_of g. set (dependencies g a))"

text \<open>The edges of the walk: from a target to each of its dependencies.\<close>

definition dependency_edges :: "build_graph \<Rightarrow> (address \<times> address) set" where
  "dependency_edges g = {(a, b). b \<in> set (dependencies g a)}"


text \<open>
  \<^verbatim>\<open>_closure\<close>: the visitor adds every node it is called on to the set \<^verbatim>\<open>closure\<close> and
  always asks to keep going. Only membership in the result is ever used.
\<close>

definition collect :: "address \<Rightarrow> address list \<Rightarrow> bool \<times> address list" where
  "collect current closure = (True, closure @ [current])"

definition closure_of :: "build_graph \<Rightarrow> address \<Rightarrow> address list" where
  "closure_of g t = snd (walk_from g t collect [])"

section \<open>The ancestor lineage of a target\<close>

text \<open>
  \<^verbatim>\<open>os.path.dirname\<close> of \<^verbatim>\<open>posixpath\<close>: the path up to and including its last slash,
  with the trailing slashes stripped unless it consists of slashes only.
\<close>

definition rstrip_slash :: "string \<Rightarrow> string" where
  "rstrip_slash p = rev (dropWhile (\<lambda>c. c = CHR ''/'') (rev p))"

definition dirname :: "string \<Rightarrow> string" where
  "dirname p =
     (let i = length p - length (takeWhile (\<lambda>c. c \<noteq> CHR ''/'') (rev p));
          head = take i p
      in if head \<noteq> [] \<and> head \<noteq> replicate (length head) CHR ''/'' then rstrip_slash head
         else head)"

text \<open>
  \<^verbatim>\<open>iter_targets_in_spec_path\<close> asks the build graph for the addresses registered under
  a spec path (\<^verbatim>\<open>SiblingAddresses\<close>); a path without addresses yields nothing. The graph
  answers in the order it registers the targets.
\<close>

definition iter_targets_in_spec_path :: "build_graph \<Rightarrow> string \<Rightarrow> address list" where
  "iter_targets_in_spec_path g p = filter (\<lambda>a. spec_path (get_target g a) = p) (map fst g)"

lemma rstrip_slash_prefix: "\<exists>zs. p = rstrip_slash p @ zs"
proof -
  have "rev p = takeWhile (\<lambda>c. c = CHR ''/'') (rev p) @ dropWhile (\<lambda>c. c = CHR ''/'') (rev p)"
    by simp
  then have "p = rev (dropWhile (\<lambda>c. c = CHR ''/'') (rev p)) @ rev (takeWhile (\<lambda>c. c = CHR ''/'') (rev p))"
    by (metis rev_append rev_rev_ident)
  then show ?thesis
    unfolding rstrip_slash_def by blast
qed

lemma dirname_prefix: "\<exists>zs. p = dirname p @ zs"
proof -
  define i where "i = length p - length (takeWhile (\<lambda>c. c \<noteq> CHR ''/'') (rev p))"
  have split: "p = take i p @ drop i p" by simp
  obtain zs where "take i p = rstrip_slash (take i p) @ zs"
    using rstrip_slash_prefix by blast
  then have "p = rstrip_slash (take i p) @ (zs @ drop i p)"
    using split by (metis append_assoc)
  with split show ?thesis
    unfolding dirname_def Let_def i_def [symmetric] by (auto simp del: append_take_drop_id)
qed

lemma dirname_shorter: "dirname p \<noteq> p \<Longrightarrow> length (dirname p) < length p"
proof -
  assume neq: "dirname p \<noteq> p"
  obtain zs where zs: "p = dirname p @ zs"
    using dirname_prefix by blast
  with neq have "zs \<noteq> []" by auto
  then have "length (dirname p) < length (dirname p @ zs)" by simp
  with zs show ?thesis by simp
qed

function iter_siblings_and_ancestors :: "build_graph \<Rightarrow> string \<Rightarrow> address list" where
  "iter_siblings_and_ancestors g p =
     iter_targets_in_spec_path g p @
     (if dirname p \<noteq> p then iter_siblings_and_ancestors g (dirname p) else [])"
  by pat_completeness auto

termination iter_siblings_and_ancestors
  by (relation "measure (\<lambda>(g, p). length p)") (simp_all add: dirname_shorter)

declare iter_siblings_and_ancestors.simps [simp del]

definition iter_target_siblings_and_ancestors :: "build_graph \<Rightarrow> address \<Rightarrow> address list" where
  "iter_target_siblings_and_ancestors g t =
     iter_siblings_and_ancestors g (spec_path (get_target g t))"

section \<open>Reduced dependencies\<close>

datatype error =
  UnExportedError address
  | NoOwnerError address
  | AmbiguousOwnerError address address "address set"

text \<open>
  \<^verbatim>\<open>potential_owners\<close> is a built-in \<^verbatim>\<open>set\<close>, and \<^verbatim>\<open>potential_owners.pop()\<close> removes
  and returns an arbitrary element of it: the hash table decides which, not the order of
  insertion. The decision is a parameter of the model: given the elements of the set,
  listed in the order of insertion, \<open>pop_choice\<close> gives the position of the element
  that \<^verbatim>\<open>pop\<close> returns (read modulo the size of the set). The code calls \<^verbatim>\<open>pop\<close>
  only after it has found the set not to be empty.
\<close>

type_synonym pop_choice = "address list \<Rightarrow> nat"

definition set_add :: "'a \<Rightarrow> 'a list \<Rightarrow> 'a list" where
  "set_add x xs = (if x \<in> set xs then xs else xs @ [x])"

definition set_pop :: "pop_choice \<Rightarrow> address list \<Rightarrow> address \<times> address list" where
  "set_pop choice xs =
     (let i = choice xs mod length xs in (xs ! i, take i xs @ drop (Suc i) xs))"

definition potential_owners :: "build_graph \<Rightarrow> address \<Rightarrow> address list" where
  "potential_owners g owned =
     fold (\<lambda>potential_owner acc.
             if is_exported g potential_owner \<and> owned \<in> set (closure_of g potential_owner)
             then set_add potential_owner acc else acc)
          (iter_target_siblings_and_ancestors g owned) []"

text \<open>
  \<^verbatim>\<open>owner_by_owned_python_target\<close> is an \<^verbatim>\<open>OrderedDict\<close>: an association list in
  the order of insertion, where a stored key keeps its place when its value is replaced.
  The first pass stores \<^verbatim>\<open>None\<close> for every original target that the walk visits.
\<close>

type_synonym owner_map = "(address \<times> address option) list"

definition collect_potentially_owned_python_targets ::
  "build_graph \<Rightarrow> address \<Rightarrow> address \<Rightarrow> owner_map \<Rightarrow> bool \<times> owner_map" where
  "collect_potentially_owned_python_targets g exported_target current owner_by =
     (current = exported_target \<or> \<not> is_exported g current,
      if is_original (get_target g current) then AList.update current None owner_by
      else owner_by)"

text \<open>The body of the second pass for one key, and the loop over the keys.\<close>

definition assign_owner ::
  "pop_choice \<Rightarrow> build_graph \<Rightarrow> address \<Rightarrow> owner_map \<Rightarrow> error + owner_map" where
  "assign_owner choice g owned owner_by =
     (if requires_export g owned \<and> \<not> is_exported g owned then
        (let candidates = potential_owners g owned in
         if candidates = [] then Inl (NoOwnerError owned)
         else (case set_pop choice candidates of
                 (owner, others) \<Rightarrow>
                   (let ambiguous_owners =
                          filter (\<lambda>other. spec_path (get_target g other) = spec_path (get_target g owner))
                            others
                    in if others \<noteq> [] \<and> ambiguous_owners \<noteq> []
                       then Inl (AmbiguousOwnerError owned owner (set ambiguous_owners))
                       else Inr (AList.update owned (Some owner) owner_by))))
      else Inr owner_by)"

fun assign_owners ::
  "pop_choice \<Rightarrow> build_graph \<Rightarrow> address list \<Rightarrow> owner_map \<Rightarrow> error + owner_map" where
  "assign_owners choice g [] owner_by = Inr owner_by"
| "assign_owners choice g (owned # rest) owner_by =
     (case assign_owner choice g owned owner_by of
        Inl e \<Rightarrow> Inl e
      | Inr owner_by' \<Rightarrow> assign_owners choice g rest owner_by')"

text \<open>
  The third pass collects into an \<^verbatim>\<open>OrderedSet\<close>. \<^verbatim>\<open>owner_by.get(current)\<close> is
  \<^verbatim>\<open>None\<close> both for a missing key and for a key without owner.
\<close>

definition dict_get :: "owner_map \<Rightarrow> address \<Rightarrow> address option" where
  "dict_get owner_by k = (case map_of owner_by k of Some v \<Rightarrow> v | None \<Rightarrow> None)"

definition collect_reduced_dependencies ::
  "build_graph \<Rightarrow> address \<Rightarrow> owner_map \<Rightarrow> address \<Rightarrow> address list \<Rightarrow> bool \<times> address list" where
  "collect_reduced_dependencies g exported_target owner_by current reduced =
     (if current = exported_target then (True, reduced)
      else (let owner = dict_get owner_by current in
            (owner = Some exported_target \<or> \<not> requires_export g current,
             case owner of
               None \<Rightarrow> set_add current reduced
             | Some ow \<Rightarrow>
                 if ow = exported_target then set_add current reduced
                 else set_add ow reduced)))"

definition provisional_owned :: "build_graph \<Rightarrow> address \<Rightarrow> owner_map" where
  "provisional_owned g exported_target =
     snd (walk_from g (derived_from (get_target g exported_target))
            (collect_potentially_owned_python_targets g exported_target) [])"

definition reduced_dependencies ::
  "pop_choice \<Rightarrow> build_graph \<Rightarrow> address \<Rightarrow> error + address list" where
  "reduced_dependencies choice g exported_target =
     (if \<not> is_exported g exported_target then Inl (UnExportedError exported_target)
      else (let owner_by0 = provisional_owned g exported_target in
            case assign_owners choice g (map fst owner_by0) owner_by0 of
              Inl e \<Rightarrow> Inl e
            | Inr owner_by \<Rightarrow>
                Inr (filter (\<lambda>d. is_original (get_target g d))
                       (snd (walk_from g exported_target
                               (collect_reduced_dependencies g exported_target owner_by) [])))))"


section \<open>Requirements of the generated project\<close>

text \<open>
  \<^verbatim>\<open>install_requires\<close> collects into an \<^verbatim>\<open>OrderedSet\<close>: the requirement strings of the
  requirement libraries and the keys of the artifacts of the exported targets, in the
  order of the reduced dependencies. \<^verbatim>\<open>write_setup\<close> stores the collection, turned
  into a list, under the keyword \<^verbatim>\<open>install_requires\<close>.
\<close>

definition install_requires :: "build_graph \<Rightarrow> address list \<Rightarrow> string list" where
  "install_requires g reduced =
     fold (\<lambda>dep acc.
             if is_requirements g dep then fold set_add (requirements (get_target g dep)) acc
             else if has_provides g dep then
               (case provides (get_target g dep) of
                  Some artifact \<Rightarrow> set_add (artifact_key artifact) acc
                | None \<Rightarrow> acc)
             else acc)
          reduced []"

definition setup_keywords_install_requires :: "build_graph \<Rightarrow> address list \<Rightarrow> string list" where
  "setup_keywords_install_requires g reduced = install_requires g reduced"

text \<open>
  The claim about the keyword, in its own words: what each reduced dependency
  contributes, and a list reduced to the first occurrence of each of its elements.
\<close>

definition contributed_requirements :: "build_graph \<Rightarrow> address \<Rightarrow> string list" where
  "contributed_requirements g dep =
     (if is_requirements g dep then requirements (get_target g dep)
      else if has_provides g dep then
        (case provides (get_target g dep) of Some artifact \<Rightarrow> [artifact_key artifact] | None \<Rightarrow> [])
      else [])"

definition first_occurrences :: "'a list \<Rightarrow> 'a list" where
  "first_occurrences xs = rev (remdups (rev xs))"

section \<open>Packages and resources of a chroot\<close>

subsection \<open>String and path operations\<close>

text \<open>\<^verbatim>\<open>s.split(c)\<close> and \<^verbatim>\<open>c.join(words)\<close> for a separator of one character.\<close>

fun split_on :: "char \<Rightarrow> string \<Rightarrow> string list" where
  "split_on c [] = [[]]"
| "split_on c (x # xs) =
     (if x = c then [] # split_on c xs
      else (case split_on c xs of
              w # ws \<Rightarrow> (x # w) # ws
            | [] \<Rightarrow> [[x]]))"

fun join_with :: "char \<Rightarrow> string list \<Rightarrow> string" where
  "join_with c [] = []"
| "join_with c [w] = w"
| "join_with c (w # v # ws) = w @ c # join_with c (v # ws)"

definition endswith :: "string \<Rightarrow> string \<Rightarrow> bool" where
  "endswith s suffix = (length suffix \<le> length s \<and> drop (length s - length suffix) s = suffix)"

definition startswith :: "string \<Rightarrow> string \<Rightarrow> bool" where
  "startswith s prefix = (take (length prefix) s = prefix)"

definition replace_char :: "char \<Rightarrow> char \<Rightarrow> string \<Rightarrow> string" where
  "replace_char old new s = map (\<lambda>c. if c = old then new else c) s"

text \<open>\<^verbatim>\<open>os.path.join\<close> of \<^verbatim>\<open>posixpath\<close> for two components.\<close>

definition path_join :: "string \<Rightarrow> string \<Rightarrow> string" where
  "path_join a b =
     (if startswith b ''/'' then b
      else if a = [] \<or> endswith a ''/'' then a @ b
      else a @ ''/'' @ b)"

subsection \<open>\<^verbatim>\<open>nearest_subpackage\<close>\<close>

definition shared_prefix :: "string \<Rightarrow> string \<Rightarrow> string list" where
  "shared_prefix package candidate =
     map fst (takeWhile (\<lambda>pair. fst pair = snd pair)
                (zip (split_on CHR ''.'' package) (split_on CHR ''.'' candidate)))"

text \<open>\<^verbatim>\<open>max(xs, key=len)\<close> returns the first of the longest elements.\<close>

definition max_by_len :: "'a list \<Rightarrow> 'a list list \<Rightarrow> 'a list" where
  "max_by_len x xs = fold (\<lambda>c best. if length best < length c then c else best) xs x"

definition nearest_subpackage :: "string \<Rightarrow> string list \<Rightarrow> string" where
  "nearest_subpackage package all_packages =
     (case filter (\<lambda>f. f \<noteq> []) (map (shared_prefix package) all_packages) of
        [] \<Rightarrow> package
      | x # xs \<Rightarrow> join_with CHR ''.'' (max_by_len x xs))"

subsection \<open>\<^verbatim>\<open>find_packages\<close>\<close>

text \<open>
  \<^verbatim>\<open>safe_walk(base)\<close> lists the directories under \<^verbatim>\<open>base\<close> with the files of each; the
  listing is the parameter \<open>tree\<close>, a list of pairs of a directory (\<^verbatim>\<open>root\<close>) and its
  file names. \<^verbatim>\<open>os.path.relpath(root, base)\<close> is modelled for the directories that the
  walk yields: \<^verbatim>\<open>base\<close> itself and the paths that extend \<^verbatim>\<open>base\<close> by a slash and more.
\<close>

definition relpath_under :: "string \<Rightarrow> string \<Rightarrow> string" where
  "relpath_under base root = (if root = base then ''.'' else drop (length base + 1) root)"

definition iter_files :: "string \<Rightarrow> (string \<times> string list) list \<Rightarrow> (string \<times> string \<times> string) list" where
  "iter_files base tree =
     concat (map (\<lambda>(root, files).
                    map (\<lambda>filename.
                           (replace_char CHR ''/'' CHR ''.'' (relpath_under base root), filename,
                            path_join root filename))
                        files)
                 tree)"

datatype find_error = NamespaceTaskError | KeyError string | AssertionError

text \<open>
  \<^verbatim>\<open>filter_namespace_packages\<close> runs a process on the \<^verbatim>\<open>__init__.py\<close> files found; the
  process is the parameter \<open>nsutil\<close>: \<open>None\<close> when it exits with an error, otherwise
  the lines that it prints.
\<close>

type_synonym resources = "string \<rightharpoonup> string set"

definition resources_add :: "string \<Rightarrow> string \<Rightarrow> resources \<Rightarrow> resources" where
  "resources_add k f res = res(k \<mapsto> insert f (case res k of None \<Rightarrow> {} | Some fs \<Rightarrow> fs))"

text \<open>
  The second loop. \<open>attribute_file\<close> is the part of its body that files a name under
  its nearest package; \<open>classify_file\<close> is the whole body, on the resources collected
  so far and the warnings logged so far. A source file outside every package is logged and
  then filed like any other file; a source file of a package is skipped.
\<close>

definition attribute_file ::
  "string list \<Rightarrow> string \<Rightarrow> string \<Rightarrow> resources \<Rightarrow> find_error + resources" where
  "attribute_file packages module filename res =
     (let submodule = nearest_subpackage module packages in
      if submodule = module then Inr (resources_add submodule filename res)
      else if \<not> startswith module (submodule @ ''.'') then Inl AssertionError
      else
        (let relative_module = drop (length submodule + 1) module;
             relative_filename =
               path_join (replace_char CHR ''.'' CHR ''/'' relative_module) filename
         in Inr (resources_add submodule relative_filename res)))"

definition classify_file ::
  "string list \<Rightarrow> string \<times> string \<times> string \<Rightarrow> resources \<times> string list
     \<Rightarrow> find_error + resources \<times> string list" where
  "classify_file packages entry st =
     (case entry of (module, filename, real_filename) \<Rightarrow>
      (case st of (res, warnings) \<Rightarrow>
        if endswith filename ''.py'' then
          (if module \<notin> set packages then
             (case attribute_file packages module filename res of
                Inl e \<Rightarrow> Inl e
              | Inr res' \<Rightarrow> Inr (res', warnings @ [real_filename]))
           else Inr (res, warnings))
        else
          (case attribute_file packages module filename res of
             Inl e \<Rightarrow> Inl e
           | Inr res' \<Rightarrow> Inr (res', warnings))))"

fun classify_files ::
  "string list \<Rightarrow> (string \<times> string \<times> string) list \<Rightarrow> resources \<times> string list
     \<Rightarrow> find_error + resources \<times> string list" where
  "classify_files packages [] st = Inr st"
| "classify_files packages (entry # entries) st =
     (case classify_file packages entry st of
        Inl e \<Rightarrow> Inl e
      | Inr st' \<Rightarrow> classify_files packages entries st')"

fun lookup_inits :: "(string \<times> string) list \<Rightarrow> string list \<Rightarrow> find_error + string list" where
  "lookup_inits inits_to_check [] = Inr []"
| "lookup_inits inits_to_check (init # inits) =
     (case map_of inits_to_check init of
        None \<Rightarrow> Inl (KeyError init)
      | Some module \<Rightarrow>
          (case lookup_inits inits_to_check inits of
             Inl e \<Rightarrow> Inl e
           | Inr modules \<Rightarrow> Inr (set_add module modules)))"

definition find_packages ::
  "(string list \<Rightarrow> string list option) \<Rightarrow> string \<Rightarrow> (string \<times> string list) list
     \<Rightarrow> find_error + string list \<times> string list \<times> resources \<times> string list" where
  "find_packages nsutil base tree =
     (let inits = filter (\<lambda>(module, filename, real_filename). filename = ''__init__.py'')
                    (iter_files base tree);
          packages = fold (\<lambda>(module, filename, real_filename). set_add module) inits [];
          inits_to_check =
            fold (\<lambda>(module, filename, real_filename). AList.update real_filename module) inits []
      in case nsutil (map fst inits_to_check) of
           None \<Rightarrow> Inl NamespaceTaskError
         | Some printed \<Rightarrow>
             (case lookup_inits inits_to_check printed of
                Inl e \<Rightarrow> Inl e
              | Inr namespace_packages \<Rightarrow>
                  (case classify_files packages (iter_files base tree) (Map.empty, []) of
                     Inl e \<Rightarrow> Inl e
                   | Inr (res, warnings) \<Rightarrow> Inr (packages, namespace_packages, res, warnings))))"


subsection \<open>Notions for the properties of the classification\<close>

text \<open>
  \<open>leading_components ws a\<close>: the words \<open>ws\<close> are the first components of the dotted
  path \<open>a\<close>. \<open>files_of\<close> reads the resources like the \<^verbatim>\<open>defaultdict\<close> they are.
  \<open>attributed_name\<close> is the name under which a file of a module is filed, relative to the
  nearest package of the module; \<open>recorded\<close> says that the resources hold such a name for
  an entry of the listing, unless the entry is a source file.
\<close>

definition leading_components :: "string list \<Rightarrow> string \<Rightarrow> bool" where
  "leading_components ws a = (take (length ws) (split_on CHR ''.'' a) = ws)"

definition files_of :: "resources \<Rightarrow> string \<Rightarrow> string set" where
  "files_of res k = (case res k of None \<Rightarrow> {} | Some fs \<Rightarrow> fs)"

definition attributed_name :: "string list \<Rightarrow> string \<Rightarrow> string \<Rightarrow> string \<Rightarrow> bool" where
  "attributed_name packages m f name =
     (if nearest_subpackage m packages = m then name = f
      else \<exists>rel. m = nearest_subpackage m packages @ ''.'' @ rel
             \<and> name = path_join (replace_char CHR ''.'' CHR ''/'' rel) f)"

definition recorded :: "string list \<Rightarrow> string \<times> string \<times> string \<Rightarrow> resources \<Rightarrow> bool" where
  "recorded packages entry res =
     (case entry of (m, f, r) \<Rightarrow>
        \<not> endswith f ''.py'' \<longrightarrow>
          (\<exists>name \<in> files_of res (nearest_subpackage m packages). attributed_name packages m f name))"

section \<open>The task: creating and running the projects\<close>

datatype task_error =
  NoArtifactError
  | AttributeError address
  | DependencyError error
  | StagingError address
  | InstallFailed address

definition is_exported_python_target :: "build_graph \<Rightarrow> address \<Rightarrow> bool" where
  "is_exported_python_target g t =
     (is_original (get_target g t) \<and> has_provides g t \<and> \<not> is_local_python_dist g t)"

text \<open>
  \<^verbatim>\<open>derived_by_original\<close>: a dictionary from the original of every synthetic target to
  that target (the last one, when several are derived from the same original).
\<close>

definition derived_by_original :: "build_graph \<Rightarrow> (address \<times> address) list" where
  "derived_by_original g =
     fold (\<lambda>t. AList.update (derived_from (get_target g t)) t)
          (filter (\<lambda>t. \<not> is_original (get_target g t)) (map fst g)) []"

definition subject_of :: "build_graph \<Rightarrow> address \<Rightarrow> address" where
  "subject_of g t = (case map_of (derived_by_original g) t of Some d \<Rightarrow> d | None \<Rightarrow> t)"

text \<open>
  \<^verbatim>\<open>create_setup_py\<close> reads the name of the artifact, computes the reduced dependencies,
  fills the chroot (\<^verbatim>\<open>write_contents\<close>, \<^verbatim>\<open>write_setup\<close>) and moves it to the directory
  named after the artifact and its version. Filling the chroot works on the file system;
  whether it succeeds is the parameter \<open>staging\<close>.
\<close>

definition create_setup_py ::
  "pop_choice \<Rightarrow> (address \<Rightarrow> address list \<Rightarrow> bool) \<Rightarrow> build_graph \<Rightarrow> string \<Rightarrow> address
     \<Rightarrow> task_error + string \<times> address list" where
  "create_setup_py choice staging g dist_dir t =
     (case provides (get_target g t) of
        None \<Rightarrow> Inl (AttributeError t)
      | Some artifact \<Rightarrow>
          (case reduced_dependencies choice g t of
             Inl e \<Rightarrow> Inl (DependencyError e)
           | Inr reduced_deps \<Rightarrow>
               if \<not> staging t reduced_deps then Inl (StagingError t)
               else Inr (path_join dist_dir
                           (artifact_name artifact @ ''-'' @ artifact_version artifact),
                         reduced_deps)))"

lemma derived_by_original_keys:
  "fst ` set (fold (\<lambda>t. AList.update (f t) t) ts acc) = fst ` set acc \<union> f ` set ts"
  by (induction ts arbitrary: acc) (auto simp: dom_update [simplified])

definition creatable :: "build_graph \<Rightarrow> address set" where
  "creatable g = nodes_of g \<union> (\<lambda>t. derived_from (get_target g t)) ` nodes_of g"

lemma create_setup_py_creatable:
  assumes "create_setup_py choice staging g dist_dir (subject_of g t) = Inr r"
  shows "t \<in> creatable g"
proof (cases "map_of (derived_by_original g) t")
  case None
  then have "subject_of g t = t" by (simp add: subject_of_def)
  with assms have "provides (get_target g t) \<noteq> None"
    by (auto simp: create_setup_py_def split: option.splits)
  then have "map_of g t \<noteq> None"
    by (auto simp: get_target_def unregistered_def split: option.splits)
  then have "t \<in> nodes_of g"
    by (auto simp: nodes_of_def dest: map_of_SomeD intro: rev_image_eqI)
  then show ?thesis by (simp add: creatable_def)
next
  case (Some d)
  then have "t \<in> fst ` set (derived_by_original g)"
    by (auto dest: map_of_SomeD intro: rev_image_eqI)
  then have "t \<in> (\<lambda>t. derived_from (get_target g t)) ` set (filter (\<lambda>t. \<not> is_original (get_target g t)) (map fst g))"
    unfolding derived_by_original_def derived_by_original_keys by simp
  then show ?thesis by (auto simp: creatable_def nodes_of_def)
qed

text \<open>
  \<^verbatim>\<open>create\<close> is recursive over the exported dependencies of the project it creates; as
  for the walk, the pending calls are an explicit stack. \<^verbatim>\<open>created\<close> is a dictionary
  from a target to the directory of its project, in the order of creation.
\<close>

function create ::
  "pop_choice \<Rightarrow> (address \<Rightarrow> address list \<Rightarrow> bool) \<Rightarrow> build_graph \<Rightarrow> bool \<Rightarrow> string
     \<Rightarrow> address list \<Rightarrow> (address \<times> string) list \<Rightarrow> task_error + (address \<times> string) list" where
  "create choice staging g recursive dist_dir [] created = Inr created"
| "create choice staging g recursive dist_dir (t # pending) created =
     (if t \<in> fst ` set created then create choice staging g recursive dist_dir pending created
      else (case create_setup_py choice staging g dist_dir (subject_of g t) of
              Inl e \<Rightarrow> Inl e
            | Inr (setup_dir, deps) \<Rightarrow>
                create choice staging g recursive dist_dir
                  ((if recursive then filter (is_exported_python_target g) deps else []) @ pending)
                  (created @ [(t, setup_dir)])))"
  by pat_completeness auto

termination create
proof (relation "measures
          [\<lambda>(choice, staging, g, recursive, dist_dir, pending, created).
              card (creatable g - fst ` set created),
           \<lambda>(choice, staging, g, recursive, dist_dir, pending, created). length pending]",
       goal_cases)
  case 1
  show ?case by simp
next
  case (2 choice staging g recursive dist_dir t pending created)
  show ?case by simp
next
  case (3 choice staging g recursive dist_dir t pending created r setup_dir deps)
  then have "t \<in> creatable g"
    using create_setup_py_creatable by metis
  with 3 have "creatable g - fst ` set (created @ [(t, setup_dir)]) \<subset> creatable g - fst ` set created"
    by auto
  moreover have "finite (creatable g - fst ` set created)"
    by (simp add: creatable_def finite_nodes_of)
  ultimately have "card (creatable g - fst ` set (created @ [(t, setup_dir)]))
      < card (creatable g - fst ` set created)"
    by (rule psubset_card_mono [rotated])
  then show ?case by simp
qed

text \<open>
  The dependency relation of the build graph is \<^verbatim>\<open>target.dependencies\<close> alone: the
  provided binaries of an exported target are edges of the calculator's walk, not of the
  build graph. \<open>dependency_closure\<close> lists the targets that a target depends on in the
  build graph, directly or through other targets, and the target itself; it is the walk
  above on the graph with the provided binaries taken out.
\<close>

definition graph_edges :: "build_graph \<Rightarrow> (address \<times> address) set" where
  "graph_edges g = {(a, b). b \<in> set (dependencies_of (get_target g a))}"

definition without_binaries :: "build_graph \<Rightarrow> build_graph" where
  "without_binaries g = map (\<lambda>(a, t). (a, t\<lparr>provided_binaries := []\<rparr>)) g"

definition dependency_closure :: "build_graph \<Rightarrow> address \<Rightarrow> address list" where
  "dependency_closure g t = closure_of (without_binaries g) t"

text \<open>
  Modelled from the spec: \<^verbatim>\<open>sort_targets\<close> of \<^verbatim>\<open>pants.build_graph.build_graph\<close>, which
  is not among the sources at hand. The specification says that the created exported
  nodes are sorted topologically by the dependency order of the original build graph and
  processed in reverse, dependencies before dependents; so \<open>sort_targets\<close> lists
  dependents before their dependencies. The topological order chosen here is by the
  number of targets that a target depends on in the build graph, largest first: a target
  that depends on another one depends on all that the other one depends on, and on the
  other one.
\<close>

definition sort_targets :: "build_graph \<Rightarrow> address list \<Rightarrow> address list" where
  "sort_targets g ts = rev (sort_key (\<lambda>t. length (dependency_closure g t)) ts)"

text \<open>
  The second loop of \<^verbatim>\<open>execute\<close> runs the packager, or the given command, on every
  project in turn and stops at the first one that fails. The packager is the parameter
  \<open>packager\<close>; the result is the sequence of targets it was run for, and the error.
\<close>

fun run_projects ::
  "(address \<Rightarrow> string \<Rightarrow> bool) \<Rightarrow> (address \<times> string) list \<Rightarrow> address list \<Rightarrow> address list
     \<Rightarrow> address list \<times> task_error option" where
  "run_projects packager created [] invoked = (invoked, None)"
| "run_projects packager created (t # ts) invoked =
     (case map_of created t of
        None \<Rightarrow> run_projects packager created ts invoked
      | Some setup_dir \<Rightarrow>
          if setup_dir = [] then run_projects packager created ts invoked
          else if packager t setup_dir then run_projects packager created ts (invoked @ [t])
          else (invoked @ [t], Some (InstallFailed t)))"

definition exported_python_targets :: "build_graph \<Rightarrow> address list \<Rightarrow> address list" where
  "exported_python_targets g target_roots =
     fold set_add (filter (is_exported_python_target g) target_roots) []"

definition create_all ::
  "pop_choice \<Rightarrow> (address \<Rightarrow> address list \<Rightarrow> bool) \<Rightarrow> build_graph \<Rightarrow> bool \<Rightarrow> string
     \<Rightarrow> address list \<Rightarrow> task_error + (address \<times> string) list" where
  "create_all choice staging g recursive dist_dir target_roots =
     (if exported_python_targets g target_roots = [] then Inl NoArtifactError
      else create choice staging g recursive dist_dir (exported_python_targets g target_roots) [])"

definition execute ::
  "pop_choice \<Rightarrow> (address \<Rightarrow> address list \<Rightarrow> bool) \<Rightarrow> (address \<Rightarrow> string \<Rightarrow> bool) \<Rightarrow> build_graph
     \<Rightarrow> bool \<Rightarrow> string \<Rightarrow> address list \<Rightarrow> address list \<times> task_error option" where
  "execute choice staging packager g recursive dist_dir target_roots =
     (case create_all choice staging g recursive dist_dir target_roots of
        Inl e \<Rightarrow> ([], Some e)
      | Inr created \<Rightarrow>
          run_projects packager created (rev (sort_targets g (map fst created))) [])"


section \<open>Example graphs\<close>

definition library :: "string \<Rightarrow> address \<Rightarrow> address list \<Rightarrow> target" where
  "library path a deps =
     \<lparr> spec_path = path, target_class = PythonLibrary, provides = None, dependencies_of = deps,
       provided_binaries = [], is_original = True, derived_from = a, requirements = [] \<rparr>"

definition exported_library :: "string \<Rightarrow> string \<Rightarrow> address \<Rightarrow> address list \<Rightarrow> target" where
  "exported_library path name a deps =
     (library path a deps)
       \<lparr> provides := Some \<lparr> artifact_name = name, artifact_version = ''1.0'', artifact_key = name \<rparr> \<rparr>"

definition requirement_library :: "string \<Rightarrow> address \<Rightarrow> string list \<Rightarrow> target" where
  "requirement_library path a reqs =
     (library path a []) \<lparr> target_class := PythonRequirementLibrary, requirements := reqs \<rparr>"

text \<open>
  Two exported targets reach the library \<open>3\<close> of \<^verbatim>\<open>a/b\<close>: target \<open>1\<close> in the same
  directory and target \<open>2\<close> in the parent directory \<^verbatim>\<open>a\<close>.
\<close>

definition graph_two_depths :: build_graph where
  "graph_two_depths =
     [(1, exported_library ''a/b'' ''near'' 1 [3]),
      (2, exported_library ''a'' ''far'' 2 [3]),
      (3, library ''a/b'' 3 [])]"

text \<open>
  The same, with a second exported target \<open>4\<close> in the directory of the library.
\<close>

definition graph_three_candidates :: build_graph where
  "graph_three_candidates =
     [(1, exported_library ''a/b'' ''near'' 1 [3]),
      (4, exported_library ''a/b'' ''twin'' 4 [3]),
      (2, exported_library ''a'' ''far'' 2 [3]),
      (3, library ''a/b'' 3 [])]"

text \<open>Three libraries that depend on each other in a cycle, below an exported target.\<close>

definition graph_cycle :: build_graph where
  "graph_cycle =
     [(1, exported_library ''a'' ''top'' 1 [2]),
      (2, library ''a'' 2 [3]),
      (3, library ''a'' 3 [4]),
      (4, library ''a'' 4 [2])]"

text \<open>
  The exported target \<open>1\<close> depends on library \<open>3\<close> of its own directory, which the
  exported target \<open>2\<close> of that directory reaches too, and on library \<open>4\<close> of the
  directory \<^verbatim>\<open>b\<close>, which holds no exported target.
\<close>

definition graph_unowned :: build_graph where
  "graph_unowned =
     [(1, exported_library ''a'' ''one'' 1 [3, 4]),
      (2, exported_library ''a'' ''two'' 2 [3]),
      (3, library ''a'' 3 []),
      (4, library ''b'' 4 [])]"

text \<open>
  The exported target \<open>1\<close> of directory \<^verbatim>\<open>a\<close> depends on library \<open>2\<close> of the
  unrelated directory \<^verbatim>\<open>b\<close>.
\<close>

definition graph_no_owner :: build_graph where
  "graph_no_owner =
     [(1, exported_library ''a'' ''one'' 1 [2]),
      (2, library ''b'' 2 [])]"

text \<open>
  The exported target \<open>1\<close> depends on a requirement library and on the exported
  target \<open>3\<close> of another directory.
\<close>

definition graph_requirements :: build_graph where
  "graph_requirements =
     [(1, exported_library ''a'' ''one'' 1 [2, 3]),
      (2, requirement_library ''3rdparty'' 2 [''zope==1.0'', ''attrs==2.0'']),
      (3, exported_library ''b'' ''two'' 3 [2])]"

text \<open>
  A chroot with the packages \<^verbatim>\<open>a\<close> and \<^verbatim>\<open>a.b\<close> and a resource in the directory
  \<^verbatim>\<open>a/b/c\<close>, which is not a package; and a chroot that holds a resource and no package.
\<close>

definition tree_example :: "(string \<times> string list) list" where
  "tree_example =
     [(''d/src'', []),
      (''d/src/a'', [''__init__.py'']),
      (''d/src/a/b'', [''__init__.py'', ''m.py'']),
      (''d/src/a/b/c'', [''data.txt''])]"

definition tree_resources_only :: "(string \<times> string list) list" where
  "tree_resources_only = [(''d/src'', []), (''d/src/a'', [''data.txt''])]"

text \<open>
  Two exported targets in unrelated directories; each depends on a library of its own
  directory and on the library of the other.
\<close>

definition graph_mutual :: build_graph where
  "graph_mutual =
     [(1, exported_library ''pa'' ''one'' 1 [3, 4]),
      (2, exported_library ''pb'' ''two'' 2 [3, 4]),
      (3, library ''pb'' 3 []),
      (4, library ''pa'' 4 [])]"

text \<open>An exported target that depends on an exported target of another directory.\<close>

definition graph_chain :: build_graph where
  "graph_chain =
     [(1, exported_library ''a'' ''one'' 1 [2]),
      (2, exported_library ''b'' ''two'' 2 [])]"


text \<open>
  The exported target \<open>1\<close> depends on the exported target \<open>2\<close>, which depends on
  nothing and provides the binary \<open>3\<close>; the binary depends on target \<open>1\<close>.
\<close>

definition graph_provided_binary :: build_graph where
  "graph_provided_binary =
     [(1, exported_library ''a'' ''one'' 1 [2]),
      (2, (exported_library ''b'' ''two'' 2 []) \<lparr> provided_binaries := [(''tool'', 3)] \<rparr>),
      (3, (library ''b'' 3 [1]) \<lparr> target_class := PythonBinary \<rparr>)]"

text \<open>
  A chroot where the directory \<^verbatim>\<open>a/b\<close> is not a package, between the packages \<^verbatim>\<open>a\<close>
  and \<^verbatim>\<open>a.b.x\<close>, and holds a resource in \<^verbatim>\<open>a/b/c\<close>.
\<close>

definition tree_gap :: "(string \<times> string list) list" where
  "tree_gap =
     [(''d/src'', []),
      (''d/src/a'', [''__init__.py'']),
      (''d/src/a/b'', []),
      (''d/src/a/b/c'', [''data.txt'']),
      (''d/src/a/b/x'', [''__init__.py''])]"

section \<open>Properties of the walk\<close>

lemma finite_addresses_of: "finite (addresses_of g)"
  by (simp add: addresses_of_def finite_nodes_of)

lemma dependencies_in_addresses: "set (dependencies g a) \<subseteq> addresses_of g"
proof (cases "a \<in> nodes_of g")
  case True
  then show ?thesis by (auto simp: addresses_of_def)
next
  case False
  then show ?thesis by (simp add: dependencies_unregistered)
qed

lemma walk_distinct:
  "distinct visited \<Longrightarrow> distinct (fst (walk g visitor pending visited s))"
  by (induction g visitor pending visited s rule: walk.induct) (auto split: prod.splits)

lemma walk_within:
  "set pending \<union> set visited \<subseteq> A \<Longrightarrow> addresses_of g \<subseteq> A
     \<Longrightarrow> set (fst (walk g visitor pending visited s)) \<subseteq> A"
proof (induction g visitor pending visited s rule: walk.induct)
  case (1 g visitor visited s)
  then show ?case by simp
next
  case (2 g visitor current pending visited s)
  show ?case
  proof (cases "current \<in> set visited")
    case True
    with 2 show ?thesis by simp
  next
    case False
    obtain k s' where v: "visitor current s = (k, s')" by (cases "visitor current s")
    have "set (dependencies g current) \<subseteq> A"
      using dependencies_in_addresses "2.prems"(2) by blast
    then have "set ((if k then dependencies g current else []) @ pending) \<union> set (visited @ [current]) \<subseteq> A"
      using "2.prems"(1) by auto
    from "2.IH"(2) [OF False v [symmetric] this "2.prems"(2)] False v show ?thesis
      by simp
  qed
qed

lemma walk_traced_calls:
  "\<exists>new. fst (walk g (traced visitor) pending visited (calls, s)) = visited @ new
     \<and> fst (snd (walk g (traced visitor) pending visited (calls, s))) = calls @ new"
proof (induction g "traced visitor" pending visited "(calls, s)" arbitrary: calls s rule: walk.induct)
  case (1 g visited)
  then show ?case by simp
next
  case (2 g current pending visited)
  show ?case
  proof (cases "current \<in> set visited")
    case True
    with 2 show ?thesis by simp
  next
    case False
    obtain k s' where v: "visitor current s = (k, s')" by (cases "visitor current s")
    then have tv: "traced visitor current (calls, s) = (k, calls @ [current], s')"
      by (simp add: traced_def)
    let ?r = "walk g (traced visitor) ((if k then dependencies g current else []) @ pending)
                (visited @ [current]) (calls @ [current], s')"
    obtain new where "fst ?r = (visited @ [current]) @ new" "fst (snd ?r) = (calls @ [current]) @ new"
      using "2.hyps"(2) [OF False tv [symmetric]] by blast
    moreover have "walk g (traced visitor) (current # pending) visited (calls, s) = ?r"
      using False tv by simp
    ultimately show ?thesis by simp
  qed
qed

lemma traced_result:
  "snd (snd (walk g (traced visitor) pending visited (calls, s))) = snd (walk g visitor pending visited s)
   \<and> fst (walk g (traced visitor) pending visited (calls, s)) = fst (walk g visitor pending visited s)"
proof (induction g visitor pending visited s arbitrary: calls rule: walk.induct)
  case (1 g visitor visited s)
  then show ?case by simp
next
  case (2 g visitor current pending visited s)
  show ?case
  proof (cases "current \<in> set visited")
    case True
    with 2 show ?thesis by simp
  next
    case False
    obtain k s' where v: "visitor current s = (k, s')" by (cases "visitor current s")
    then have tv: "traced visitor current (calls, s) = (k, calls @ [current], s')"
      by (simp add: traced_def)
    from "2.IH"(2) [OF False v [symmetric]] False v tv show ?thesis by simp
  qed
qed


lemma walk_state_invariant:
  "(\<And>c s. P s \<Longrightarrow> P (snd (visitor c s))) \<Longrightarrow> P s \<Longrightarrow> P (snd (walk g visitor pending visited s))"
proof (induction g visitor pending visited s rule: walk.induct)
  case (1 g visitor visited s)
  then show ?case by simp
next
  case (2 g visitor current pending visited s)
  show ?case
  proof (cases "current \<in> set visited")
    case True
    with 2 show ?thesis by simp
  next
    case False
    obtain k s' where v: "visitor current s = (k, s')" by (cases "visitor current s")
    have "P s'" using "2.prems"(1) [OF "2.prems"(2), of current] v by simp
    from "2.IH"(2) [OF False v [symmetric] "2.prems"(1) this] False v show ?thesis
      by simp
  qed
qed

lemma set_add_set: "set (set_add x xs) = insert x (set xs)"
  by (auto simp: set_add_def)

lemma set_add_distinct: "distinct xs \<Longrightarrow> distinct (set_add x xs)"
  by (simp add: set_add_def)

lemma collect_reduced_excludes:
  "t \<notin> set reduced \<Longrightarrow> t \<notin> set (snd (collect_reduced_dependencies g t owner_by c reduced))"
  by (auto simp: collect_reduced_dependencies_def Let_def set_add_set split: option.splits)

lemma collect_reduced_distinct:
  "distinct reduced \<Longrightarrow> distinct (snd (collect_reduced_dependencies g t owner_by c reduced))"
  by (auto simp: collect_reduced_dependencies_def Let_def set_add_distinct split: option.splits)

lemma assign_owner_not_unexported: "assign_owner choice g owned owner_by \<noteq> Inl (UnExportedError a)"
  by (simp add: assign_owner_def Let_def split: prod.splits)

lemma assign_owners_not_unexported: "assign_owners choice g ks owner_by \<noteq> Inl (UnExportedError a)"
proof (induction ks arbitrary: owner_by)
  case Nil
  then show ?case by simp
next
  case (Cons k ks)
  then show ?case
    using assign_owner_not_unexported [of choice g k owner_by a]
    by (cases "assign_owner choice g k owner_by") simp_all
qed



lemma walk_cycle_example:
  "walk_from graph_cycle 1 (traced collect) ([], []) = ([1, 2, 3, 4], [1, 2, 3, 4], [1, 2, 3, 4])"
  by code_simp

text \<open>
  C10. The walk calls the visitor at most once for every node, and it ends on every
  graph, cycles included. The walk is a total function (its termination is proved for
  every graph and every visitor); the sequence of the visitor's calls is the sequence of
  the visited nodes, no node occurs twice in it, and it is no longer than the number of
  addresses of the graph and the start node. Logging the calls does not change the result
  of the walk.
\<close>

theorem walk_visits_each_node_once:
  "fst (snd (walk_from g t (traced visitor) ([], s))) = fst (walk_from g t (traced visitor) ([], s))
   \<and> distinct (fst (snd (walk_from g t (traced visitor) ([], s))))
   \<and> length (fst (snd (walk_from g t (traced visitor) ([], s)))) \<le> card (insert t (addresses_of g))
   \<and> snd (snd (walk_from g t (traced visitor) ([], s))) = snd (walk_from g t visitor s)"
proof -
  let ?r = "walk g (traced visitor) [t] [] ([], s)"
  obtain new where "fst ?r = [] @ new" "fst (snd ?r) = [] @ new"
    using walk_traced_calls [of g visitor "[t]" "[]" "[]" s] by blast
  then have same: "fst (snd ?r) = fst ?r" by simp
  have dist: "distinct (fst ?r)"
    by (rule walk_distinct) simp
  have "set (fst ?r) \<subseteq> insert t (addresses_of g)"
    by (rule walk_within) auto
  then have "card (set (fst ?r)) \<le> card (insert t (addresses_of g))"
    by (intro card_mono) (simp_all add: finite_addresses_of)
  with dist have len: "length (fst ?r) \<le> card (insert t (addresses_of g))"
    by (simp add: distinct_card)
  from same dist len traced_result [of g visitor "[t]" "[]" "[]" s] show ?thesis
    by (simp add: walk_from_def)
qed

section \<open>Properties of the reduced dependencies\<close>

text \<open>
  C2. The reduced dependencies of an exported target never contain the target itself,
  and all of them are targets of the original graph (\<^verbatim>\<open>is_original\<close>). They are also
  free of duplicates.
\<close>

theorem reduced_dependencies_excludes_self:
  assumes "reduced_dependencies choice g t = Inr ds"
  shows "t \<notin> set ds \<and> (\<forall>d \<in> set ds. is_original (get_target g d)) \<and> distinct ds"
proof -
  from assms obtain owner_by where
    ds: "ds = filter (\<lambda>d. is_original (get_target g d))
                (snd (walk_from g t (collect_reduced_dependencies g t owner_by) []))"
    by (auto simp: reduced_dependencies_def Let_def split: if_splits sum.splits)
  have "t \<notin> set (snd (walk_from g t (collect_reduced_dependencies g t owner_by) []))"
    unfolding walk_from_def
    by (rule walk_state_invariant [where P = "\<lambda>r. t \<notin> set r"]) (simp_all add: collect_reduced_excludes)
  moreover have "distinct (snd (walk_from g t (collect_reduced_dependencies g t owner_by) []))"
    unfolding walk_from_def
    by (rule walk_state_invariant [where P = distinct]) (simp_all add: collect_reduced_distinct)
  ultimately show ?thesis using ds by simp
qed

theorem reduced_dependencies_excludes_self_witness:
  "reduced_dependencies (\<lambda>xs. 0) graph_two_depths 2 = Inr [1]
   \<and> 2 \<notin> set [1::nat] \<and> is_original (get_target graph_two_depths 1)
   \<and> distinct [1::nat]"
proof -
  have h: "reduced_dependencies (\<lambda>xs. 0) graph_two_depths 2 = Inr [1]"
    by code_simp
  from reduced_dependencies_excludes_self [OF h] h show ?thesis by simp
qed

text \<open>
  C4. \<^verbatim>\<open>reduced_dependencies\<close> raises \<^verbatim>\<open>UnExportedError\<close> exactly when the target it is
  called on is not exported. For such a target the error is the result whatever the
  ownership of the targets below it is: the check comes before the passes.
\<close>

theorem unexported_error_iff:
  "((\<exists>a. reduced_dependencies choice g t = Inl (UnExportedError a)) = (\<not> is_exported g t))
   \<and> (\<not> is_exported g t \<longrightarrow> reduced_dependencies choice g t = Inl (UnExportedError t))"
proof -
  have "\<not> is_exported g t" if "reduced_dependencies choice g t = Inl (UnExportedError a)" for a
  proof
    assume "is_exported g t"
    with that show False
      using assign_owners_not_unexported [of choice g _ _ a]
      by (auto simp: reduced_dependencies_def Let_def split: sum.splits)
  qed
  moreover have "reduced_dependencies choice g t = Inl (UnExportedError t)" if "\<not> is_exported g t"
    using that by (simp add: reduced_dependencies_def)
  ultimately show ?thesis by blast
qed

text \<open>
  Library \<open>4\<close> of \<open>graph_unowned\<close> is not exported and has no owner: the second pass
  on its own walk would raise \<^verbatim>\<open>NoOwnerError\<close>, and the call raises
  \<^verbatim>\<open>UnExportedError\<close>.
\<close>

theorem unexported_error_iff_witness:
  "\<not> is_exported graph_unowned 4
   \<and> assign_owners (\<lambda>xs. 0) graph_unowned [4] [(4, None)] = Inl (NoOwnerError 4)
   \<and> reduced_dependencies (\<lambda>xs. 0) graph_unowned 4 = Inl (UnExportedError 4)
   \<and> (\<exists>a. reduced_dependencies (\<lambda>xs. 0) graph_unowned 4 = Inl (UnExportedError a))"
proof -
  have h: "\<not> is_exported graph_unowned 4"
    by code_simp
  have n: "assign_owners (\<lambda>xs. 0) graph_unowned [4] [(4, None)] = Inl (NoOwnerError 4)"
    by code_simp
  from unexported_error_iff [of "\<lambda>xs. 0" graph_unowned 4] h n show ?thesis by blast
qed

lemma assign_owner_error_cases:
  "assign_owner choice g y owner_by = Inl e \<Longrightarrow>
     e = NoOwnerError y \<or> (\<exists>owner others. e = AmbiguousOwnerError y owner others)"
  by (auto simp: assign_owner_def Let_def split: if_splits prod.splits)

lemma assign_owner_error_any_map:
  "assign_owner choice g y owner_by = Inl e \<Longrightarrow> assign_owner choice g y owner_by' = Inl e"
  by (auto simp: assign_owner_def Let_def split: if_splits prod.splits)

lemma assign_owner_no_candidates:
  "requires_export g x \<Longrightarrow> \<not> is_exported g x \<Longrightarrow> potential_owners g x = []
     \<Longrightarrow> assign_owner choice g x owner_by = Inl (NoOwnerError x)"
  by (simp add: assign_owner_def)

lemma assign_owners_first_error:
  assumes "\<And>owner_by. assign_owner choice g x owner_by = Inl e"
  shows "assign_owners choice g (pre @ x # post) owner_by = Inl e
         \<or> (\<exists>y \<in> set pre. \<exists>e'. assign_owners choice g (pre @ x # post) owner_by = Inl e'
                \<and> assign_owner choice g y owner_by = Inl e')"
proof (induction pre arbitrary: owner_by)
  case Nil
  then show ?case by (simp add: assms)
next
  case (Cons y pre)
  show ?case
  proof (cases "assign_owner choice g y owner_by")
    case (Inl e')
    then show ?thesis by simp
  next
    case (Inr owner_by')
    from Cons.IH [of owner_by']
    consider "assign_owners choice g (pre @ x # post) owner_by' = Inl e"
      | z e' where "z \<in> set pre" "assign_owners choice g (pre @ x # post) owner_by' = Inl e'"
          "assign_owner choice g z owner_by' = Inl e'"
      by blast
    then show ?thesis
    proof cases
      case 1
      with Inr show ?thesis by simp
    next
      case 2
      have "assign_owner choice g z owner_by = Inl e'"
        using 2(3) by (rule assign_owner_error_any_map)
      moreover have "assign_owners choice g ((y # pre) @ x # post) owner_by = Inl e'"
        using 2(2) Inr by simp
      ultimately show ?thesis using 2(1) by auto
    qed
  qed
qed

lemma assign_owner_cong:
  assumes "set_pop choice1 (potential_owners g y) = set_pop choice2 (potential_owners g y)"
  shows "assign_owner choice1 g y owner_by = assign_owner choice2 g y owner_by"
  unfolding assign_owner_def Let_def assms ..

lemma assign_owners_cong:
  assumes "\<forall>y \<in> set ys. set_pop choice1 (potential_owners g y) = set_pop choice2 (potential_owners g y)"
  shows "assign_owners choice1 g ys owner_by = assign_owners choice2 g ys owner_by"
  using assms
proof (induction ys arbitrary: owner_by)
  case Nil
  show ?case by simp
next
  case (Cons y ys)
  have step: "assign_owner choice1 g y owner_by = assign_owner choice2 g y owner_by"
    using Cons.prems by (intro assign_owner_cong) simp
  have rest: "assign_owners choice1 g ys ob = assign_owners choice2 g ys ob" for ob
    using Cons.prems by (intro Cons.IH) simp
  show ?case
    unfolding assign_owners.simps step
    by (cases "assign_owner choice2 g y owner_by") (simp_all only: sum.case rest)
qed


text \<open>
  When \<^verbatim>\<open>pop\<close> returns the candidate found first, the owner is that candidate and the
  error is raised exactly when another candidate has its spec path.
\<close>

lemma first_found_owner:
  assumes "requires_export g x" and "\<not> is_exported g x" and "potential_owners g x = c # cs"
  shows "assign_owner (\<lambda>xs. 0) g x owner_by =
     (if \<exists>other \<in> set cs. spec_path (get_target g other) = spec_path (get_target g c)
      then Inl (AmbiguousOwnerError x c
                  {other \<in> set cs. spec_path (get_target g other) = spec_path (get_target g c)})
      else Inr (AList.update x (Some c) owner_by))"
proof -
  have pop: "set_pop (\<lambda>xs. 0) (c # cs) = (c, cs)"
    by (simp add: set_pop_def)
  have "filter (\<lambda>other. spec_path (get_target g other) = spec_path (get_target g c)) cs \<noteq> [] \<longleftrightarrow>
      (\<exists>other \<in> set cs. spec_path (get_target g other) = spec_path (get_target g c))"
    by (simp add: filter_empty_conv)
  then show ?thesis
    using assms pop by (auto simp: assign_owner_def Let_def)
qed


text \<open>
  C1, evaluated. Library \<open>3\<close> of \<open>graph_two_depths\<close> has two candidate owners at
  different depths, found in the order \<open>1\<close> (its own directory), \<open>2\<close> (the parent
  directory). When \<^verbatim>\<open>pop\<close> returns the second element of the set, the owner is the far
  target \<open>2\<close>, no error is raised, and the reduced dependencies of the near target \<open>1\<close>
  are the far target instead of the library. In \<open>graph_three_candidates\<close> the
  candidate found first shares its spec path with another candidate; when \<^verbatim>\<open>pop\<close>
  returns the far candidate, no error is raised either.
\<close>

theorem popped_owner_is_not_nearest:
  "potential_owners graph_two_depths 3 = [1, 2]
   \<and> set_pop (\<lambda>xs. 1) [1, 2] = (2, [1])
   \<and> assign_owner (\<lambda>xs. 1) graph_two_depths 3 [(1, None), (3, None)] = Inr [(1, None), (3, Some 2)]
   \<and> reduced_dependencies (\<lambda>xs. 1) graph_two_depths 1 = Inr [2]
   \<and> reduced_dependencies (\<lambda>xs. 0) graph_two_depths 1 = Inr [3]
   \<and> potential_owners graph_three_candidates 3 = [1, 4, 2]
   \<and> set_pop (\<lambda>xs. 2) [1, 4, 2] = (2, [1, 4])
   \<and> reduced_dependencies (\<lambda>xs. 2) graph_three_candidates 1 = Inr [2]
   \<and> reduced_dependencies (\<lambda>xs. 0) graph_three_candidates 1 = Inl (AmbiguousOwnerError 3 1 {4})"
  by code_simp

text \<open>
  What the result depends on. The reduced dependencies are a function of the graph, the
  target and the elements that \<^verbatim>\<open>pop\<close> returns for the sets of candidate owners of
  the provisionally collected targets. So they are the same in all calls when no
  collected target has more than one candidate owner.
\<close>

lemma reduced_dependencies_pop_cong:
  assumes "\<forall>owned \<in> set (map fst (provisional_owned g t)).
             set_pop choice1 (potential_owners g owned) = set_pop choice2 (potential_owners g owned)"
  shows "reduced_dependencies choice1 g t = reduced_dependencies choice2 g t"
  unfolding reduced_dependencies_def Let_def assign_owners_cong [OF assms] ..

lemma assign_owner_single_candidate:
  assumes "length (potential_owners g y) \<le> 1"
  shows "assign_owner choice1 g y owner_by = assign_owner choice2 g y owner_by"
proof (cases "potential_owners g y")
  case Nil
  then show ?thesis by (simp add: assign_owner_def)
next
  case (Cons c cs)
  with assms have "cs = []" by simp
  with Cons have "set_pop choice1 (potential_owners g y) = set_pop choice2 (potential_owners g y)"
    by (simp add: set_pop_def)
  then show ?thesis by (rule assign_owner_cong)
qed

lemma assign_owners_single_candidate:
  assumes "\<forall>y \<in> set ys. length (potential_owners g y) \<le> 1"
  shows "assign_owners choice1 g ys owner_by = assign_owners choice2 g ys owner_by"
  using assms
proof (induction ys arbitrary: owner_by)
  case Nil
  show ?case by simp
next
  case (Cons y ys)
  have step: "assign_owner choice1 g y owner_by = assign_owner choice2 g y owner_by"
    using Cons.prems by (intro assign_owner_single_candidate) simp
  have rest: "assign_owners choice1 g ys ob = assign_owners choice2 g ys ob" for ob
    using Cons.prems by (intro Cons.IH) simp
  show ?case
    unfolding assign_owners.simps step
    by (cases "assign_owner choice2 g y owner_by") (simp_all only: sum.case rest)
qed

lemma reduced_dependencies_single_candidate:
  assumes "\<forall>owned \<in> set (map fst (provisional_owned g t)). length (potential_owners g owned) \<le> 1"
  shows "reduced_dependencies choice1 g t = reduced_dependencies choice2 g t"
proof -
  have same: "assign_owners choice1 g (map fst (provisional_owned g t)) (provisional_owned g t) =
      assign_owners choice2 g (map fst (provisional_owned g t)) (provisional_owned g t)"
    using assms by (rule assign_owners_single_candidate)
  show ?thesis
    unfolding reduced_dependencies_def Let_def same ..
qed

text \<open>
  C3, evaluated. On \<open>graph_two_depths\<close>, unchanged, the reduced dependencies of
  target \<open>1\<close> are the library \<open>3\<close> in a call where \<^verbatim>\<open>pop\<close> returns the first element
  of the set of candidate owners of the library, and the exported target \<open>2\<close> in a call
  where it returns the second; likewise for target \<open>2\<close>. The two calls do not yield
  the same sequence.
\<close>

theorem reduced_dependencies_depend_on_pop:
  "potential_owners graph_two_depths 3 = [1, 2]
   \<and> reduced_dependencies (\<lambda>xs. 0) graph_two_depths 1 = Inr [3]
   \<and> reduced_dependencies (\<lambda>xs. 1) graph_two_depths 1 = Inr [2]
   \<and> reduced_dependencies (\<lambda>xs. 0) graph_two_depths 1 \<noteq> reduced_dependencies (\<lambda>xs. 1) graph_two_depths 1
   \<and> reduced_dependencies (\<lambda>xs. 0) graph_two_depths 2 = Inr [1]
   \<and> reduced_dependencies (\<lambda>xs. 1) graph_two_depths 2 = Inr [3]"
  by code_simp

text \<open>
  C5, as the code has it. The second pass handles the provisionally collected targets in
  the order of collection and stops at the first that fails. So when a collected target
  \<open>x\<close> requires export, is not exported and has no candidate owner, the call fails:
  with \<^verbatim>\<open>NoOwnerError\<close> for \<open>x\<close>, unless a target collected before \<open>x\<close> has failed
  already, with \<^verbatim>\<open>NoOwnerError\<close> or with \<^verbatim>\<open>AmbiguousOwnerError\<close>.
\<close>

theorem no_owner_error:
  assumes "is_exported g t"
    and "map fst (provisional_owned g t) = pre @ x # post"
    and "requires_export g x" and "\<not> is_exported g x" and "potential_owners g x = []"
  shows "reduced_dependencies choice g t = Inl (NoOwnerError x)
         \<or> (\<exists>y \<in> set pre. reduced_dependencies choice g t = Inl (NoOwnerError y)
               \<or> (\<exists>owner others.
                     reduced_dependencies choice g t = Inl (AmbiguousOwnerError y owner others)))"
proof -
  let ?r = "assign_owners choice g (pre @ x # post) (provisional_owned g t)"
  have x: "assign_owner choice g x owner_by = Inl (NoOwnerError x)" for owner_by
    using assms(3-5) by (rule assign_owner_no_candidates)
  have rd: "reduced_dependencies choice g t = Inl e" if "?r = Inl e" for e
    using that assms(1,2) by (simp add: reduced_dependencies_def Let_def)
  from assign_owners_first_error [of choice g x "NoOwnerError x" pre post "provisional_owned g t", OF x]
  consider "?r = Inl (NoOwnerError x)"
    | y e' where "y \<in> set pre" "?r = Inl e'" "assign_owner choice g y (provisional_owned g t) = Inl e'"
    by blast
  then show ?thesis
  proof cases
    case 1
    then show ?thesis using rd by simp
  next
    case 2
    from assign_owner_error_cases [OF 2(3)] 2(1,2) rd show ?thesis by blast
  qed
qed

theorem no_owner_error_witness:
  "is_exported graph_no_owner 1
   \<and> map fst (provisional_owned graph_no_owner 1) = [1] @ 2 # []
   \<and> requires_export graph_no_owner 2 \<and> \<not> is_exported graph_no_owner 2
   \<and> potential_owners graph_no_owner 2 = []
   \<and> reduced_dependencies (\<lambda>xs. 0) graph_no_owner 1 = Inl (NoOwnerError 2)"
proof -
  have h1: "is_exported graph_no_owner 1" by code_simp
  have h2: "map fst (provisional_owned graph_no_owner 1) = [1] @ 2 # []" by code_simp
  have h3: "requires_export graph_no_owner 2" by code_simp
  have h4: "\<not> is_exported graph_no_owner 2" by code_simp
  have h5: "potential_owners graph_no_owner 2 = []" by code_simp
  have exported: "assign_owner (\<lambda>xs. 0) graph_no_owner 1 owner_by = Inr owner_by" for owner_by
    using h1 by (simp add: assign_owner_def)
  from no_owner_error [OF h1 h2 h3 h4 h5, of "\<lambda>xs. 0"]
  have "reduced_dependencies (\<lambda>xs. 0) graph_no_owner 1 = Inl (NoOwnerError 2)
      \<or> reduced_dependencies (\<lambda>xs. 0) graph_no_owner 1 = Inl (NoOwnerError 1)
      \<or> (\<exists>owner others.
            reduced_dependencies (\<lambda>xs. 0) graph_no_owner 1 = Inl (AmbiguousOwnerError 1 owner others))"
    by simp
  moreover have "reduced_dependencies (\<lambda>xs. 0) graph_no_owner 1 \<noteq> Inl (NoOwnerError 1)"
    by code_simp
  moreover have "reduced_dependencies (\<lambda>xs. 0) graph_no_owner 1 \<noteq> Inl (AmbiguousOwnerError 1 owner others)"
    for owner others
    using h1 h2 exported
    by (simp add: reduced_dependencies_def Let_def assign_owner_no_candidates [OF h3 h4 h5])
  ultimately have "reduced_dependencies (\<lambda>xs. 0) graph_no_owner 1 = Inl (NoOwnerError 2)"
    by blast
  then show ?thesis
    by (intro conjI h1 h2 h3 h4 h5)
qed

text \<open>
  The claim as it is stated fails on \<open>graph_unowned\<close>: library \<open>4\<close> is collected,
  requires export, is not exported and has no candidate owner, and the call raises
  \<^verbatim>\<open>AmbiguousOwnerError\<close> for library \<open>3\<close>, which is collected before it.
\<close>

theorem no_owner_error_counterexample:
  "is_exported graph_unowned 1
   \<and> map fst (provisional_owned graph_unowned 1) = [1, 3, 4]
   \<and> requires_export graph_unowned 4 \<and> \<not> is_exported graph_unowned 4
   \<and> potential_owners graph_unowned 4 = []
   \<and> reduced_dependencies (\<lambda>xs. 0) graph_unowned 1 = Inl (AmbiguousOwnerError 3 1 {2})"
  by code_simp


section \<open>Properties of the requirements\<close>

lemma fold_set_add_first_occurrences: "fold set_add xs [] = first_occurrences xs"
proof (induction xs rule: rev_induct)
  case Nil
  show ?case by (simp add: first_occurrences_def)
next
  case (snoc x xs)
  have "set (first_occurrences xs) = set xs"
    by (simp add: first_occurrences_def)
  with snoc show ?case
    by (simp add: first_occurrences_def set_add_def)
qed

lemma install_requires_step:
  "(if is_requirements g dep then fold set_add (requirements (get_target g dep)) acc
    else if has_provides g dep then
      (case provides (get_target g dep) of
         Some artifact \<Rightarrow> set_add (artifact_key artifact) acc
       | None \<Rightarrow> acc)
    else acc) = fold set_add (contributed_requirements g dep) acc"
  by (simp add: contributed_requirements_def split: option.splits)

lemma fold_fold_concat:
  "fold (\<lambda>d acc. fold f (h d) acc) ds acc = fold f (concat (map h ds)) acc"
  by (induction ds arbitrary: acc) simp_all

lemma install_requires_fold:
  "install_requires g reduced = fold set_add (concat (map (contributed_requirements g) reduced)) []"
  unfolding install_requires_def install_requires_step
  by (rule fold_fold_concat)

text \<open>
  C6, as the code has it. The keyword \<^verbatim>\<open>install_requires\<close> holds the requirement
  strings of the requirement libraries and the artifact keys of the exported targets among
  the reduced dependencies, in the order of the reduced dependencies, each string once, at
  the place of its first occurrence. The list is not sorted.
\<close>

theorem install_requires_order:
  "setup_keywords_install_requires g reduced =
     first_occurrences (concat (map (contributed_requirements g) reduced))
   \<and> distinct (setup_keywords_install_requires g reduced)
   \<and> set (setup_keywords_install_requires g reduced) =
       (\<Union>dep \<in> set reduced. set (contributed_requirements g dep))"
proof -
  have "setup_keywords_install_requires g reduced =
     first_occurrences (concat (map (contributed_requirements g) reduced))"
    by (simp add: setup_keywords_install_requires_def install_requires_fold
        fold_set_add_first_occurrences)
  then show ?thesis
    by (simp add: first_occurrences_def)
qed

text \<open>
  The claim as it is stated fails on \<open>graph_requirements\<close>: the requirements of the
  library come in the order the library lists them, before the key of the exported target.
\<close>

theorem install_requires_sorted_counterexample:
  "reduced_dependencies (\<lambda>xs. 0) graph_requirements 1 = Inr [2, 3]
   \<and> setup_keywords_install_requires graph_requirements [2, 3] = [''zope==1.0'', ''attrs==2.0'', ''two'']
   \<and> \<not> sorted [''zope==1.0'', ''attrs==2.0'', ''two'']"
  by code_simp


section \<open>Properties of the classification\<close>

lemma split_on_nonempty: "split_on c s \<noteq> []"
  by (induction s) (auto split: list.splits)

lemma split_on_no_separator: "w \<in> set (split_on c s) \<Longrightarrow> c \<notin> set w"
  by (induction s arbitrary: w) (auto split: list.splits if_splits)

lemma join_with_Cons: "ws \<noteq> [] \<Longrightarrow> join_with c (w # ws) = w @ c # join_with c ws"
  by (cases ws) simp_all

lemma join_with_split_on: "join_with c (split_on c s) = s"
proof (induction s)
  case Nil
  show ?case by simp
next
  case (Cons x s)
  show ?case
  proof (cases "x = c")
    case True
    with Cons show ?thesis
      by (simp add: join_with_Cons split_on_nonempty)
  next
    case False
    obtain w ws where ws: "split_on c s = w # ws"
      using split_on_nonempty [of c s] by (cases "split_on c s") auto
    with Cons have "join_with c (w # ws) = s" by simp
    then have "join_with c ((x # w) # ws) = x # s"
      by (cases ws) auto
    with False ws show ?thesis by simp
  qed
qed

lemma split_on_no_sep_word: "c \<notin> set w \<Longrightarrow> split_on c w = [w]"
  by (induction w) auto

lemma split_on_append_sep:
  "c \<notin> set w \<Longrightarrow> split_on c (w @ c # s) = w # split_on c s"
  by (induction w) auto

lemma split_on_join_with:
  "ws \<noteq> [] \<Longrightarrow> \<forall>w \<in> set ws. c \<notin> set w \<Longrightarrow> split_on c (join_with c ws) = ws"
proof (induction ws rule: join_with.induct)
  case (1 c)
  then show ?case by simp
next
  case (2 c w)
  then show ?case by (simp add: split_on_no_sep_word)
next
  case (3 c w v ws)
  then show ?case by (simp add: split_on_append_sep)
qed

lemma join_with_append:
  "xs \<noteq> [] \<Longrightarrow> ys \<noteq> [] \<Longrightarrow> join_with c (xs @ ys) = join_with c xs @ c # join_with c ys"
proof (induction xs rule: join_with.induct)
  case (1 c)
  then show ?case by simp
next
  case (2 c w)
  then show ?case by (simp add: join_with_Cons)
next
  case (3 c w v ws)
  then show ?case by simp
qed


lemma common_prefix_take_fst:
  "map fst (takeWhile (\<lambda>pair. fst pair = snd pair) (zip xs ys)) =
     take (length (takeWhile (\<lambda>pair. fst pair = snd pair) (zip xs ys))) xs"
proof (induction xs arbitrary: ys)
  case Nil
  show ?case by simp
next
  case (Cons x xs)
  show ?case by (cases ys) (simp_all add: Cons.IH)
qed

lemma common_prefix_take_snd:
  "map fst (takeWhile (\<lambda>pair. fst pair = snd pair) (zip xs ys)) =
     take (length (takeWhile (\<lambda>pair. fst pair = snd pair) (zip xs ys))) ys"
proof (induction xs arbitrary: ys)
  case Nil
  show ?case by simp
next
  case (Cons x xs)
  show ?case by (cases ys) (simp_all add: Cons.IH)
qed

lemma common_prefix_longest:
  "take n xs = take n ys \<Longrightarrow> n \<le> length xs \<Longrightarrow> n \<le> length ys
     \<Longrightarrow> n \<le> length (takeWhile (\<lambda>pair. fst pair = snd pair) (zip xs ys))"
proof (induction xs arbitrary: ys n)
  case Nil
  then show ?case by simp
next
  case (Cons x xs)
  show ?case
  proof (cases n)
    case 0
    then show ?thesis by simp
  next
    case (Suc k)
    with Cons.prems obtain y ys' where ys: "ys = y # ys'" by (cases ys) auto
    with Suc Cons.prems have "x = y" "take k xs = take k ys'" "k \<le> length xs" "k \<le> length ys'"
      by auto
    with Cons.IH [of k ys'] ys Suc show ?thesis by simp
  qed
qed

lemma take_length_take: "take (length (take n xs)) xs = take n xs"
  by (simp add: min_def)

lemma shared_prefix_of_package:
  "take (length (shared_prefix m p)) (split_on CHR ''.'' m) = shared_prefix m p"
proof -
  have "shared_prefix m p =
      take (length (takeWhile (\<lambda>pair. fst pair = snd pair)
                      (zip (split_on CHR ''.'' m) (split_on CHR ''.'' p))))
        (split_on CHR ''.'' m)"
    unfolding shared_prefix_def by (rule common_prefix_take_fst)
  then show ?thesis
    by (metis take_length_take)
qed

lemma shared_prefix_of_candidate:
  "take (length (shared_prefix m p)) (split_on CHR ''.'' p) = shared_prefix m p"
proof -
  have "shared_prefix m p =
      take (length (takeWhile (\<lambda>pair. fst pair = snd pair)
                      (zip (split_on CHR ''.'' m) (split_on CHR ''.'' p))))
        (split_on CHR ''.'' p)"
    unfolding shared_prefix_def by (rule common_prefix_take_snd)
  then show ?thesis
    by (metis take_length_take)
qed

lemma take_full_length: "take n xs = ws \<Longrightarrow> length ws = n \<Longrightarrow> n \<le> length xs"
  by auto

lemma shared_prefix_longest:
  assumes "take (length ws) (split_on CHR ''.'' m) = ws" and "take (length ws) (split_on CHR ''.'' p) = ws"
  shows "length ws \<le> length (shared_prefix m p)"
proof -
  have "length ws \<le> length (split_on CHR ''.'' m)"
    using assms(1) by (rule take_full_length) simp
  moreover have "length ws \<le> length (split_on CHR ''.'' p)"
    using assms(2) by (rule take_full_length) simp
  moreover have "take (length ws) (split_on CHR ''.'' m) = take (length ws) (split_on CHR ''.'' p)"
    using assms by simp
  ultimately have "length ws \<le> length (takeWhile (\<lambda>pair. fst pair = snd pair)
      (zip (split_on CHR ''.'' m) (split_on CHR ''.'' p)))"
    using common_prefix_longest by blast
  then show ?thesis by (simp add: shared_prefix_def)
qed

lemma max_by_len_Nil: "max_by_len x [] = x"
  by (simp add: max_by_len_def)

lemma max_by_len_Cons:
  "max_by_len x (z # zs) = max_by_len (if length x < length z then z else x) zs"
  by (simp add: max_by_len_def)

lemma max_by_len_member: "max_by_len x xs \<in> set (x # xs)"
proof (induction xs arbitrary: x)
  case Nil
  show ?case by (simp add: max_by_len_Nil)
next
  case (Cons z zs)
  show ?case
  proof (cases "length x < length z")
    case True
    then have "max_by_len x (z # zs) = max_by_len z zs" by (simp add: max_by_len_Cons)
    with Cons.IH [of z] show ?thesis by simp
  next
    case False
    then have "max_by_len x (z # zs) = max_by_len x zs" by (simp add: max_by_len_Cons)
    with Cons.IH [of x] show ?thesis by auto
  qed
qed

lemma max_by_len_start: "length x \<le> length (max_by_len x xs)"
proof (induction xs arbitrary: x)
  case Nil
  show ?case by (simp add: max_by_len_Nil)
next
  case (Cons z zs)
  show ?case
  proof (cases "length x < length z")
    case True
    then have "max_by_len x (z # zs) = max_by_len z zs" by (simp add: max_by_len_Cons)
    with Cons.IH [of z] True show ?thesis by simp
  next
    case False
    then have "max_by_len x (z # zs) = max_by_len x zs" by (simp add: max_by_len_Cons)
    with Cons.IH [of x] show ?thesis by simp
  qed
qed

lemma max_by_len_longest: "y \<in> set (x # xs) \<Longrightarrow> length y \<le> length (max_by_len x xs)"
proof (induction xs arbitrary: x)
  case Nil
  then show ?case by (simp add: max_by_len_Nil)
next
  case (Cons z zs)
  let ?x' = "if length x < length z then z else x"
  from Cons.prems consider "y = x" | "y = z" | "y \<in> set zs" by auto
  then show ?case
  proof cases
    case 1
    then have "length y \<le> length ?x'" by simp
    also have "\<dots> \<le> length (max_by_len ?x' zs)" by (rule max_by_len_start)
    finally show ?thesis by (simp only: max_by_len_Cons)
  next
    case 2
    then have "length y \<le> length ?x'" by simp
    also have "\<dots> \<le> length (max_by_len ?x' zs)" by (rule max_by_len_start)
    finally show ?thesis by (simp only: max_by_len_Cons)
  next
    case 3
    then have "length y \<le> length (max_by_len ?x' zs)"
      by (intro Cons.IH) simp
    then show ?thesis by (simp only: max_by_len_Cons)
  qed
qed

lemma nearest_subpackage_cases:
  "((\<forall>p \<in> set packages. shared_prefix m p = []) \<and> nearest_subpackage m packages = m)
   \<or> (\<exists>p0 \<in> set packages. shared_prefix m p0 \<noteq> []
         \<and> nearest_subpackage m packages = join_with CHR ''.'' (shared_prefix m p0)
         \<and> (\<forall>p \<in> set packages. length (shared_prefix m p) \<le> length (shared_prefix m p0)))"
proof (cases "filter (\<lambda>f. f \<noteq> []) (map (shared_prefix m) packages)")
  case Nil
  then have "\<forall>p \<in> set packages. shared_prefix m p = []"
    by (auto simp: filter_empty_conv)
  with Nil show ?thesis by (simp add: nearest_subpackage_def)
next
  case (Cons x xs)
  let ?best = "max_by_len x xs"
  have "?best \<in> set (filter (\<lambda>f. f \<noteq> []) (map (shared_prefix m) packages))"
    using max_by_len_member [of x xs] Cons by simp
  then obtain p0 where p0: "p0 \<in> set packages" "?best = shared_prefix m p0" "shared_prefix m p0 \<noteq> []"
    by auto
  have "length (shared_prefix m p) \<le> length (shared_prefix m p0)" if "p \<in> set packages" for p
  proof (cases "shared_prefix m p = []")
    case True
    then show ?thesis by simp
  next
    case False
    with that have "shared_prefix m p \<in> set (filter (\<lambda>f. f \<noteq> []) (map (shared_prefix m) packages))"
      by simp
    then have "shared_prefix m p \<in> set (x # xs)" by (simp only: Cons)
    then show ?thesis using max_by_len_longest p0(2) by metis
  qed
  moreover have "nearest_subpackage m packages = join_with CHR ''.'' (shared_prefix m p0)"
    using Cons p0(2) by (simp add: nearest_subpackage_def)
  ultimately show ?thesis using p0 by blast
qed

lemma split_join_shared_prefix:
  assumes "shared_prefix m p \<noteq> []"
  shows "split_on CHR ''.'' (join_with CHR ''.'' (shared_prefix m p)) = shared_prefix m p"
proof (rule split_on_join_with [OF assms])
  show "\<forall>w \<in> set (shared_prefix m p). CHR ''.'' \<notin> set w"
  proof
    fix w
    assume "w \<in> set (shared_prefix m p)"
    then have "w \<in> set (take (length (shared_prefix m p)) (split_on CHR ''.'' m))"
      by (simp only: shared_prefix_of_package)
    then have "w \<in> set (split_on CHR ''.'' m)"
      by (rule in_set_takeD)
    then show "CHR ''.'' \<notin> set w"
      by (rule split_on_no_separator)
  qed
qed

lemma nearest_subpackage_prefix:
  "take (length (split_on CHR ''.'' (nearest_subpackage m packages))) (split_on CHR ''.'' m) =
     split_on CHR ''.'' (nearest_subpackage m packages)"
  using nearest_subpackage_cases [of packages m]
proof (elim disjE conjE bexE)
  assume "nearest_subpackage m packages = m"
  then show ?thesis by simp
next
  fix p0
  assume "shared_prefix m p0 \<noteq> []"
    and "nearest_subpackage m packages = join_with CHR ''.'' (shared_prefix m p0)"
  then have "split_on CHR ''.'' (nearest_subpackage m packages) = shared_prefix m p0"
    by (simp add: split_join_shared_prefix)
  then show ?thesis
    by (simp only: shared_prefix_of_package)
qed

lemma nearest_subpackage_longest:
  assumes "p \<in> set packages"
    and "take (length ws) (split_on CHR ''.'' m) = ws"
    and "take (length ws) (split_on CHR ''.'' p) = ws"
  shows "length ws \<le> length (split_on CHR ''.'' (nearest_subpackage m packages))"
  using nearest_subpackage_cases [of packages m]
proof (elim disjE conjE bexE)
  assume "nearest_subpackage m packages = m"
  moreover have "length ws \<le> length (split_on CHR ''.'' m)"
    using assms(2) by (rule take_full_length) simp
  ultimately show ?thesis by simp
next
  fix p0
  assume ne: "shared_prefix m p0 \<noteq> []"
    and eq: "nearest_subpackage m packages = join_with CHR ''.'' (shared_prefix m p0)"
    and longest: "\<forall>p \<in> set packages. length (shared_prefix m p) \<le> length (shared_prefix m p0)"
  have "length ws \<le> length (shared_prefix m p)"
    using assms(2,3) by (rule shared_prefix_longest)
  also have "\<dots> \<le> length (shared_prefix m p0)"
    using longest assms(1) by blast
  finally show ?thesis
    using ne eq by (simp add: split_join_shared_prefix)
qed

lemma nearest_subpackage_shared:
  assumes "p \<in> set packages" and "shared_prefix m p \<noteq> []"
  shows "\<exists>p0 \<in> set packages.
           take (length (split_on CHR ''.'' (nearest_subpackage m packages))) (split_on CHR ''.'' p0) =
             split_on CHR ''.'' (nearest_subpackage m packages)"
  using nearest_subpackage_cases [of packages m]
proof (elim disjE conjE bexE)
  assume "\<forall>p \<in> set packages. shared_prefix m p = []"
  with assms show ?thesis by blast
next
  fix p0
  assume p0: "p0 \<in> set packages" and ne: "shared_prefix m p0 \<noteq> []"
    and eq: "nearest_subpackage m packages = join_with CHR ''.'' (shared_prefix m p0)"
  then have "split_on CHR ''.'' (nearest_subpackage m packages) = shared_prefix m p0"
    by (simp add: split_join_shared_prefix)
  then have "take (length (split_on CHR ''.'' (nearest_subpackage m packages))) (split_on CHR ''.'' p0) =
             split_on CHR ''.'' (nearest_subpackage m packages)"
    by (simp only: shared_prefix_of_candidate)
  with p0 show ?thesis by blast
qed

lemma nearest_subpackage_unshared:
  assumes "\<forall>p \<in> set packages. shared_prefix m p = []"
  shows "nearest_subpackage m packages = m \<and> m \<notin> set packages"
proof
  show "nearest_subpackage m packages = m"
    using nearest_subpackage_cases [of packages m] assms by blast
  show "m \<notin> set packages"
  proof
    assume "m \<in> set packages"
    with assms have "shared_prefix m m = []" by blast
    moreover have "length (split_on CHR ''.'' m) \<le> length (shared_prefix m m)"
      by (rule shared_prefix_longest) simp_all
    ultimately show False
      using split_on_nonempty [of "CHR ''.''" m] by simp
  qed
qed

lemma nearest_subpackage_is_package:
  assumes p: "p \<in> set packages"
    and contains: "take (length (split_on CHR ''.'' p)) (split_on CHR ''.'' m) = split_on CHR ''.'' p"
    and longest: "\<forall>q \<in> set packages. length (shared_prefix m q) \<le> length (split_on CHR ''.'' p)"
  shows "nearest_subpackage m packages = p"
proof -
  have le: "length (split_on CHR ''.'' p) \<le> length (shared_prefix m p)"
    using contains by (rule shared_prefix_longest) simp
  have "split_on CHR ''.'' p \<noteq> []"
    by (rule split_on_nonempty)
  with le have pne: "shared_prefix m p \<noteq> []"
    by (cases "shared_prefix m p") simp_all
  have "\<not> (\<forall>p \<in> set packages. shared_prefix m p = [])"
    using p pne by blast
  with nearest_subpackage_cases [of packages m] obtain p0 where
    p0: "p0 \<in> set packages" "shared_prefix m p0 \<noteq> []"
    and eq: "nearest_subpackage m packages = join_with CHR ''.'' (shared_prefix m p0)"
    and best: "\<forall>q \<in> set packages. length (shared_prefix m q) \<le> length (shared_prefix m p0)"
    by blast
  have "length (shared_prefix m p) \<le> length (shared_prefix m p0)"
    using best p by blast
  with le have "length (split_on CHR ''.'' p) \<le> length (shared_prefix m p0)"
    by (rule le_trans)
  moreover have "length (shared_prefix m p0) \<le> length (split_on CHR ''.'' p)"
    using longest p0(1) by blast
  ultimately have len: "length (shared_prefix m p0) = length (split_on CHR ''.'' p)"
    by (rule le_antisym [rotated])
  have "shared_prefix m p0 = take (length (shared_prefix m p0)) (split_on CHR ''.'' m)"
    by (rule shared_prefix_of_package [symmetric])
  also have "\<dots> = take (length (split_on CHR ''.'' p)) (split_on CHR ''.'' m)"
    by (simp only: len)
  also note contains
  finally have "join_with CHR ''.'' (shared_prefix m p0) = join_with CHR ''.'' (split_on CHR ''.'' p)"
    by (rule arg_cong)
  also have "\<dots> = p"
    by (rule join_with_split_on)
  finally show ?thesis
    using eq by (rule trans [rotated])
qed

lemma nearest_subpackage_relative:
  assumes "nearest_subpackage m packages \<noteq> m"
  shows "\<exists>rel. m = nearest_subpackage m packages @ ''.'' @ rel"
  using nearest_subpackage_cases [of packages m]
proof (elim disjE conjE bexE)
  assume "nearest_subpackage m packages = m"
  with assms show ?thesis by simp
next
  fix p0
  assume ne: "shared_prefix m p0 \<noteq> []"
    and eq: "nearest_subpackage m packages = join_with CHR ''.'' (shared_prefix m p0)"
  let ?n = "length (shared_prefix m p0)"
  let ?ws = "split_on CHR ''.'' m"
  have tk: "take ?n ?ws = shared_prefix m p0"
    by (rule shared_prefix_of_package)
  have "drop ?n ?ws \<noteq> []"
  proof
    assume "drop ?n ?ws = []"
    then have "take ?n ?ws = ?ws" by simp
    with tk eq have "nearest_subpackage m packages = join_with CHR ''.'' ?ws" by simp
    with assms show False by (simp add: join_with_split_on)
  qed
  then have "join_with CHR ''.'' (shared_prefix m p0 @ drop ?n ?ws) =
      join_with CHR ''.'' (shared_prefix m p0) @ CHR ''.'' # join_with CHR ''.'' (drop ?n ?ws)"
    using ne by (intro join_with_append)
  moreover have "shared_prefix m p0 @ drop ?n ?ws = ?ws"
    using tk by (metis append_take_drop_id)
  ultimately have joined: "join_with CHR ''.'' ?ws =
      join_with CHR ''.'' (shared_prefix m p0) @ CHR ''.'' # join_with CHR ''.'' (drop ?n ?ws)"
    by simp
  have "m = join_with CHR ''.'' ?ws"
    by (rule join_with_split_on [symmetric])
  also note joined
  also have "join_with CHR ''.'' (shared_prefix m p0) @ CHR ''.'' # join_with CHR ''.'' (drop ?n ?ws) =
      nearest_subpackage m packages @ ''.'' @ join_with CHR ''.'' (drop ?n ?ws)"
    unfolding eq by simp
  finally show ?thesis ..
qed

text \<open>
  \<^verbatim>\<open>all_packages\<close> is a set; the result does not depend on the order in which it is
  listed.
\<close>

lemma nearest_subpackage_set:
  assumes "set ps = set qs"
  shows "nearest_subpackage m ps = nearest_subpackage m qs"
proof -
  from nearest_subpackage_cases [of ps m]
  consider (none) "\<forall>p \<in> set ps. shared_prefix m p = []" "nearest_subpackage m ps = m"
    | (some) p0 where "p0 \<in> set ps" "shared_prefix m p0 \<noteq> []"
        "nearest_subpackage m ps = join_with CHR ''.'' (shared_prefix m p0)"
        "\<forall>p \<in> set ps. length (shared_prefix m p) \<le> length (shared_prefix m p0)"
    by blast
  then show ?thesis
  proof cases
    case none
    then have "\<forall>p \<in> set qs. shared_prefix m p = []" using assms by simp
    then have "nearest_subpackage m qs = m"
      using nearest_subpackage_unshared by blast
    with none(2) show ?thesis by simp
  next
    case some
    from nearest_subpackage_cases [of qs m] some(1,2) assms obtain q0 where
      q0: "q0 \<in> set qs" "shared_prefix m q0 \<noteq> []"
        "nearest_subpackage m qs = join_with CHR ''.'' (shared_prefix m q0)"
        "\<forall>p \<in> set qs. length (shared_prefix m p) \<le> length (shared_prefix m q0)"
      by blast
    have "length (shared_prefix m p0) \<le> length (shared_prefix m q0)"
      using q0(4) some(1) assms by blast
    moreover have "length (shared_prefix m q0) \<le> length (shared_prefix m p0)"
      using some(4) q0(1) assms by blast
    ultimately have len: "length (shared_prefix m p0) = length (shared_prefix m q0)"
      by (rule le_antisym)
    have "shared_prefix m p0 = take (length (shared_prefix m p0)) (split_on CHR ''.'' m)"
      by (rule shared_prefix_of_package [symmetric])
    also have "\<dots> = take (length (shared_prefix m q0)) (split_on CHR ''.'' m)"
      by (simp only: len)
    also have "\<dots> = shared_prefix m q0"
      by (rule shared_prefix_of_package)
    finally show ?thesis
      using some(3) q0(3) by simp
  qed
qed


lemma attribute_file_result:
  "\<exists>name. attribute_file packages m f res = Inr (resources_add (nearest_subpackage m packages) name res)
     \<and> (if nearest_subpackage m packages = m then name = f
         else \<exists>rel. m = nearest_subpackage m packages @ ''.'' @ rel
                \<and> name = path_join (replace_char CHR ''.'' CHR ''/'' rel) f)"
proof (cases "nearest_subpackage m packages = m")
  case True
  then show ?thesis by (simp add: attribute_file_def)
next
  case False
  define k where "k = nearest_subpackage m packages"
  from False obtain rel where rel: "m = k @ ''.'' @ rel"
    unfolding k_def using nearest_subpackage_relative by blast
  have "take (length (k @ ''.'')) ((k @ ''.'') @ rel) = k @ ''.''"
    by simp
  then have "take (length (k @ ''.'')) m = k @ ''.''"
    using rel by simp
  then have sw: "startswith m (k @ ''.'')"
    by (simp only: startswith_def)
  have "drop (length k + 1) ((k @ ''.'') @ rel) = rel"
    by simp
  then have dr: "drop (length k + 1) m = rel"
    using rel by simp
  have km: "k \<noteq> m"
    using False by (simp add: k_def)
  let ?name = "path_join (replace_char CHR ''.'' CHR ''/'' rel) f"
  have "attribute_file packages m f res = Inr (resources_add k ?name res)"
    unfolding attribute_file_def Let_def k_def [symmetric]
    by (simp only: km sw dr if_False if_True not_True_eq_False not_not)
  then have result: "attribute_file packages m f res =
      Inr (resources_add (nearest_subpackage m packages) ?name res)"
    by (simp only: k_def)
  from rel have rel': "m = nearest_subpackage m packages @ ''.'' @ rel"
    by (simp only: k_def)
  have "\<exists>r. m = nearest_subpackage m packages @ ''.'' @ r
            \<and> ?name = path_join (replace_char CHR ''.'' CHR ''/'' r) f"
    by (rule exI [of _ rel], rule conjI, rule rel', rule refl)
  then have cond: "if nearest_subpackage m packages = m then ?name = f
      else \<exists>r. m = nearest_subpackage m packages @ ''.'' @ r
            \<and> ?name = path_join (replace_char CHR ''.'' CHR ''/'' r) f"
    by (simp only: False if_False)
  show ?thesis
    by (rule exI [of _ ?name], rule conjI, rule result, rule cond)
qed

lemma resources_add_dom: "dom (resources_add k f res) = insert k (dom res)"
  by (simp add: resources_add_def)

lemma resources_add_files:
  "files_of (resources_add k f res) k' =
     (if k' = k then insert f (files_of res k) else files_of res k')"
  by (simp add: resources_add_def files_of_def)

lemma attribute_file_step:
  "\<exists>res' name. attribute_file packages m f res = Inr res'
     \<and> dom res' = insert (nearest_subpackage m packages) (dom res)
     \<and> (\<forall>k. files_of res k \<subseteq> files_of res' k)
     \<and> name \<in> files_of res' (nearest_subpackage m packages)
     \<and> attributed_name packages m f name"
proof -
  obtain name where r: "attribute_file packages m f res =
        Inr (resources_add (nearest_subpackage m packages) name res)"
    and n: "attributed_name packages m f name"
    using attribute_file_result [of packages m f res] unfolding attributed_name_def by blast
  let ?res' = "resources_add (nearest_subpackage m packages) name res"
  have "dom ?res' = insert (nearest_subpackage m packages) (dom res)"
    by (rule resources_add_dom)
  moreover have "\<forall>k. files_of res k \<subseteq> files_of ?res' k"
    by (auto simp: resources_add_files)
  moreover have "name \<in> files_of ?res' (nearest_subpackage m packages)"
    by (simp add: resources_add_files)
  ultimately show ?thesis using r n by blast
qed

lemma classify_file_step:
  "\<exists>res' w'. classify_file packages (m, f, r) (res, w) = Inr (res', w')
     \<and> dom res \<subseteq> dom res'
     \<and> dom res' \<subseteq> insert (nearest_subpackage m packages) (dom res)
     \<and> (\<forall>k. files_of res k \<subseteq> files_of res' k)
     \<and> recorded packages (m, f, r) res'"
proof -
  obtain res' name where a: "attribute_file packages m f res = Inr res'"
    "dom res' = insert (nearest_subpackage m packages) (dom res)"
    "\<forall>k. files_of res k \<subseteq> files_of res' k"
    "name \<in> files_of res' (nearest_subpackage m packages)"
    "attributed_name packages m f name"
    using attribute_file_step [of packages m f res] by blast
  show ?thesis
  proof (cases "endswith f ''.py'' \<and> m \<in> set packages")
    case True
    then have "classify_file packages (m, f, r) (res, w) = Inr (res, w)"
      by (simp add: classify_file_def)
    moreover from True have "recorded packages (m, f, r) res"
      by (simp add: recorded_def)
    ultimately show ?thesis by blast
  next
    case False
    then have "\<exists>w'. classify_file packages (m, f, r) (res, w) = Inr (res', w')"
      using a(1) by (auto simp: classify_file_def)
    moreover have "recorded packages (m, f, r) res'"
      using a(4,5) by (auto simp: recorded_def)
    ultimately show ?thesis using a(2,3) by blast
  qed
qed

lemma recorded_mono:
  "recorded packages entry res \<Longrightarrow> \<forall>k. files_of res k \<subseteq> files_of res' k
     \<Longrightarrow> recorded packages entry res'"
  unfolding recorded_def by (cases entry) (auto; blast)

lemma classify_files_result:
  "\<exists>res' w'. classify_files packages entries (res, w) = Inr (res', w')
     \<and> dom res \<subseteq> dom res'
     \<and> dom res' \<subseteq> dom res \<union> (\<lambda>(m, f, r). nearest_subpackage m packages) ` set entries
     \<and> (\<forall>k. files_of res k \<subseteq> files_of res' k)
     \<and> (\<forall>entry \<in> set entries. recorded packages entry res')"
proof (induction entries arbitrary: res w)
  case Nil
  show ?case by simp
next
  case (Cons entry entries)
  obtain m f r where e: "entry = (m, f, r)" by (cases entry)
  obtain res1 w1 where s1: "classify_file packages (m, f, r) (res, w) = Inr (res1, w1)"
    "dom res \<subseteq> dom res1" "dom res1 \<subseteq> insert (nearest_subpackage m packages) (dom res)"
    "\<forall>k. files_of res k \<subseteq> files_of res1 k" "recorded packages (m, f, r) res1"
    using classify_file_step [of packages m f r res w] by blast
  obtain res2 w2 where s2: "classify_files packages entries (res1, w1) = Inr (res2, w2)"
    "dom res1 \<subseteq> dom res2"
    "dom res2 \<subseteq> dom res1 \<union> (\<lambda>(m, f, r). nearest_subpackage m packages) ` set entries"
    "\<forall>k. files_of res1 k \<subseteq> files_of res2 k"
    "\<forall>entry \<in> set entries. recorded packages entry res2"
    using Cons.IH [of res1 w1] by blast
  have "classify_files packages (entry # entries) (res, w) = Inr (res2, w2)"
    using e s1(1) s2(1) by simp
  moreover have "dom res \<subseteq> dom res2"
    using s1(2) s2(2) by blast
  moreover have "dom res2 \<subseteq> dom res \<union> (\<lambda>(m, f, r). nearest_subpackage m packages) ` set (entry # entries)"
  proof
    fix k
    assume "k \<in> dom res2"
    with s2(3) consider "k \<in> dom res1"
      | "k \<in> (\<lambda>(m, f, r). nearest_subpackage m packages) ` set entries"
      by blast
    then show "k \<in> dom res \<union> (\<lambda>(m, f, r). nearest_subpackage m packages) ` set (entry # entries)"
    proof cases
      case 1
      with s1(3) have "k = nearest_subpackage m packages \<or> k \<in> dom res" by blast
      then show ?thesis using e by auto
    next
      case 2
      then show ?thesis by auto
    qed
  qed
  moreover have "\<forall>k. files_of res k \<subseteq> files_of res2 k"
    using s1(4) s2(4) by blast
  moreover have "recorded packages entry res2"
    using s1(5) s2(4) e recorded_mono by blast
  then have "\<forall>x \<in> set (entry # entries). recorded packages x res2"
    using s2(5) by simp
  ultimately show ?case by blast
qed

lemma find_packages_classified:
  assumes "find_packages nsutil base tree = Inr (packages, namespace_packages, res, warnings)"
  shows "classify_files packages (iter_files base tree) (Map.empty, []) = Inr (res, warnings)"
  using assms unfolding find_packages_def Let_def
  by (auto split: option.splits sum.splits prod.splits)

lemma leading_shared_prefix:
  "leading_components (shared_prefix m p) m \<and> leading_components (shared_prefix m p) p"
  by (simp add: leading_components_def shared_prefix_of_package shared_prefix_of_candidate)

lemma nearest_subpackage_longest_common:
  assumes "p \<in> set packages" and "leading_components ws m" and "leading_components ws p"
  shows "length ws \<le> length (split_on CHR ''.'' (nearest_subpackage m packages))"
  using assms unfolding leading_components_def by (rule nearest_subpackage_longest)

text \<open>
  What the second loop does with a file that is not a source file: it files it under the
  longest sequence of leading dotted components that its module shares with a package,
  joined with dots, under the bare file name when that is the module itself, and otherwise
  under the rest of the module with slashes for dots, joined with the file name.
\<close>

lemma nearest_package_attribution:
  assumes "find_packages nsutil base tree = Inr (packages, namespace_packages, res, warnings)"
    and "(module, filename, real_filename) \<in> set (iter_files base tree)"
    and "\<not> endswith filename ''.py''"
  shows "\<exists>files name.
           res (nearest_subpackage module packages) = Some files \<and> name \<in> files
           \<and> (if nearest_subpackage module packages = module then name = filename
               else \<exists>rel. module = nearest_subpackage module packages @ ''.'' @ rel
                      \<and> name = path_join (replace_char CHR ''.'' CHR ''/'' rel) filename)
           \<and> leading_components (split_on CHR ''.'' (nearest_subpackage module packages)) module
           \<and> (\<forall>p \<in> set packages. \<forall>ws.
                 leading_components ws module \<and> leading_components ws p \<longrightarrow>
                 length ws \<le> length (split_on CHR ''.'' (nearest_subpackage module packages)))
           \<and> ((\<exists>p \<in> set packages. \<exists>ws. ws \<noteq> [] \<and> leading_components ws module
                   \<and> leading_components ws p) \<longrightarrow>
               (\<exists>p \<in> set packages.
                  leading_components (split_on CHR ''.'' (nearest_subpackage module packages)) p))"
proof -
  let ?k = "nearest_subpackage module packages"
  have cl: "classify_files packages (iter_files base tree) (Map.empty, []) = Inr (res, warnings)"
    using assms(1) by (rule find_packages_classified)
  from classify_files_result [of packages "iter_files base tree" Map.empty "[]"] cl
  have "\<forall>entry \<in> set (iter_files base tree). recorded packages entry res"
    by auto
  with assms(2) have "recorded packages (module, filename, real_filename) res"
    by blast
  with assms(3) obtain name where name: "name \<in> files_of res ?k"
    "attributed_name packages module filename name"
    unfolding recorded_def by auto
  from name(1) obtain files where files: "res ?k = Some files" "name \<in> files"
    unfolding files_of_def by (cases "res ?k") auto
  have lead: "leading_components (split_on CHR ''.'' ?k) module"
    unfolding leading_components_def by (rule nearest_subpackage_prefix)
  have longest: "\<forall>p \<in> set packages. \<forall>ws.
        leading_components ws module \<and> leading_components ws p \<longrightarrow>
        length ws \<le> length (split_on CHR ''.'' ?k)"
    using nearest_subpackage_longest_common by blast
  have shared: "\<exists>p \<in> set packages. leading_components (split_on CHR ''.'' ?k) p"
    if "\<exists>p \<in> set packages. \<exists>ws. ws \<noteq> [] \<and> leading_components ws module \<and> leading_components ws p"
  proof -
    from that obtain p ws where p: "p \<in> set packages" "ws \<noteq> []"
      "leading_components ws module" "leading_components ws p"
      by blast
    then have "length ws \<le> length (shared_prefix module p)"
      unfolding leading_components_def by (intro shared_prefix_longest)
    with p(2) have "shared_prefix module p \<noteq> []"
      by (cases "shared_prefix module p") simp_all
    with p(1) show ?thesis
      unfolding leading_components_def by (rule nearest_subpackage_shared)
  qed
  from files name(2) lead longest shared show ?thesis
    unfolding attributed_name_def by blast
qed

text \<open>
  The example of the specification: with the packages \<^verbatim>\<open>a\<close> and \<^verbatim>\<open>a.b\<close>, the file
  \<^verbatim>\<open>a/b/c/data.txt\<close> is filed under \<^verbatim>\<open>a.b\<close> as \<^verbatim>\<open>c/data.txt\<close>.
\<close>

lemma nearest_package_example:
  "find_packages (\<lambda>inits. Some []) ''d/src'' tree_example =
     Inr ([''a'', ''a.b''], [], [''a.b'' \<mapsto> {''c/data.txt''}], [])
   \<and> (''a.b.c'', ''data.txt'', ''d/src/a/b/c/data.txt'') \<in> set (iter_files ''d/src'' tree_example)
   \<and> \<not> endswith ''data.txt'' ''.py''
   \<and> nearest_subpackage ''a.b.c'' [''a'', ''a.b''] = ''a.b''
   \<and> (\<exists>files name. [''a.b'' \<mapsto> {''c/data.txt''}] (nearest_subpackage ''a.b.c'' [''a'', ''a.b'']) = Some files
         \<and> name \<in> files \<and> name = ''c/data.txt'')"
proof -
  have h1: "find_packages (\<lambda>inits. Some []) ''d/src'' tree_example =
     Inr ([''a'', ''a.b''], [], [''a.b'' \<mapsto> {''c/data.txt''}], [])"
    by (simp add: find_packages_def tree_example_def iter_files_def relpath_under_def
        replace_char_def path_join_def startswith_def endswith_def set_add_def classify_file_def
        attribute_file_def nearest_subpackage_def shared_prefix_def max_by_len_def
        resources_add_def)
  have h2: "(''a.b.c'', ''data.txt'', ''d/src/a/b/c/data.txt'') \<in> set (iter_files ''d/src'' tree_example)"
    by (simp add: tree_example_def iter_files_def relpath_under_def replace_char_def path_join_def
        startswith_def endswith_def)
  have h3: "\<not> endswith ''data.txt'' ''.py''"
    by (simp add: endswith_def)
  have k: "nearest_subpackage ''a.b.c'' [''a'', ''a.b''] = ''a.b''"
    by (simp add: nearest_subpackage_def shared_prefix_def max_by_len_def)
  from nearest_package_attribution [OF h1 h2 h3]
  obtain files name where
    "[''a.b'' \<mapsto> {''c/data.txt''}] (nearest_subpackage ''a.b.c'' [''a'', ''a.b'']) = Some files"
    "name \<in> files"
    by blast
  moreover from this have "name = ''c/data.txt''"
    unfolding k by auto
  ultimately have "\<exists>files name. [''a.b'' \<mapsto> {''c/data.txt''}] (nearest_subpackage ''a.b.c'' [''a'', ''a.b'']) = Some files
         \<and> name \<in> files \<and> name = ''c/data.txt''"
    by blast
  with h1 h2 h3 k show ?thesis by blast
qed

text \<open>
  C7, evaluated. In \<open>tree_gap\<close> the only package that contains the file
  \<^verbatim>\<open>a/b/c/data.txt\<close> is \<^verbatim>\<open>a\<close>. The module \<^verbatim>\<open>a.b.c\<close> shares two components with
  the package \<^verbatim>\<open>a.b.x\<close>, which does not contain it, and the file is filed under
  \<^verbatim>\<open>a.b\<close>, which is not a package, as \<^verbatim>\<open>c/data.txt\<close>.
\<close>

theorem nearest_package_skipped:
  "find_packages (\<lambda>inits. Some []) ''d/src'' tree_gap =
     Inr ([''a'', ''a.b.x''], [], [''a.b'' \<mapsto> {''c/data.txt''}], [])
   \<and> nearest_subpackage ''a.b.c'' [''a'', ''a.b.x''] = ''a.b''
   \<and> ''a.b'' \<notin> set [''a'', ''a.b.x'']
   \<and> leading_components (split_on CHR ''.'' ''a'') ''a.b.c''
   \<and> \<not> leading_components (split_on CHR ''.'' ''a.b.x'') ''a.b.c''"
  by (simp add: find_packages_def tree_gap_def iter_files_def relpath_under_def
      replace_char_def path_join_def startswith_def endswith_def set_add_def classify_file_def
      attribute_file_def nearest_subpackage_def shared_prefix_def max_by_len_def
      resources_add_def leading_components_def)

text \<open>
  C8, as the code has it. Every key of the resources is the nearest package computed for
  the module of a file of the chroot. That key is a package when some package leads the
  module and no package shares more leading components with the module than this one has;
  it is the module itself, and no package, when no package shares a leading component
  with the module.
\<close>

theorem resources_keys:
  assumes "find_packages nsutil base tree = Inr (packages, namespace_packages, res, warnings)"
    and "k \<in> dom res"
  shows "\<exists>module filename real_filename.
           (module, filename, real_filename) \<in> set (iter_files base tree)
           \<and> k = nearest_subpackage module packages
           \<and> ((\<exists>p \<in> set packages. leading_components (split_on CHR ''.'' p) module
                  \<and> (\<forall>q \<in> set packages. \<forall>ws.
                        leading_components ws module \<and> leading_components ws q \<longrightarrow>
                        length ws \<le> length (split_on CHR ''.'' p)))
                \<longrightarrow> k \<in> set packages)
           \<and> ((\<forall>p \<in> set packages. \<forall>ws.
                   leading_components ws module \<and> leading_components ws p \<longrightarrow> ws = [])
                \<longrightarrow> k = module \<and> k \<notin> set packages)"
proof -
  have cl: "classify_files packages (iter_files base tree) (Map.empty, []) = Inr (res, warnings)"
    using assms(1) by (rule find_packages_classified)
  from classify_files_result [of packages "iter_files base tree" Map.empty "[]"] cl
  have "dom res \<subseteq> (\<lambda>(m, f, r). nearest_subpackage m packages) ` set (iter_files base tree)"
    by auto
  with assms(2) obtain module filename real_filename where
    entry: "(module, filename, real_filename) \<in> set (iter_files base tree)"
    and k: "k = nearest_subpackage module packages"
    by auto
  have pkg: "k \<in> set packages"
    if "\<exists>p \<in> set packages. leading_components (split_on CHR ''.'' p) module
          \<and> (\<forall>q \<in> set packages. \<forall>ws.
                leading_components ws module \<and> leading_components ws q \<longrightarrow>
                length ws \<le> length (split_on CHR ''.'' p))"
  proof -
    from that obtain p where p: "p \<in> set packages"
      "leading_components (split_on CHR ''.'' p) module"
      "\<forall>q \<in> set packages. \<forall>ws.
          leading_components ws module \<and> leading_components ws q \<longrightarrow>
          length ws \<le> length (split_on CHR ''.'' p)"
      by blast
    have "\<forall>q \<in> set packages. length (shared_prefix module q) \<le> length (split_on CHR ''.'' p)"
      using p(3) leading_shared_prefix by blast
    with p(1,2) have "nearest_subpackage module packages = p"
      unfolding leading_components_def by (intro nearest_subpackage_is_package)
    with p(1) k show ?thesis by simp
  qed
  have own: "k = module \<and> k \<notin> set packages"
    if "\<forall>p \<in> set packages. \<forall>ws.
          leading_components ws module \<and> leading_components ws p \<longrightarrow> ws = []"
  proof -
    from that have "\<forall>p \<in> set packages. shared_prefix module p = []"
      using leading_shared_prefix by blast
    then have "nearest_subpackage module packages = module \<and> module \<notin> set packages"
      by (rule nearest_subpackage_unshared)
    then show ?thesis
      unfolding k by simp
  qed
  from entry k pkg own show ?thesis by blast
qed

theorem resources_keys_witness:
  "find_packages (\<lambda>inits. Some []) ''d/src'' tree_example =
     Inr ([''a'', ''a.b''], [], [''a.b'' \<mapsto> {''c/data.txt''}], [])
   \<and> ''a.b'' \<in> dom [''a.b'' \<mapsto> {''c/data.txt''}]
   \<and> (\<exists>module filename real_filename.
         (module, filename, real_filename) \<in> set (iter_files ''d/src'' tree_example)
         \<and> ''a.b'' = nearest_subpackage module [''a'', ''a.b''])
   \<and> ''a.b'' \<in> set [''a'', ''a.b'']"
proof -
  have h1: "find_packages (\<lambda>inits. Some []) ''d/src'' tree_example =
     Inr ([''a'', ''a.b''], [], [''a.b'' \<mapsto> {''c/data.txt''}], [])"
    by (simp add: find_packages_def tree_example_def iter_files_def relpath_under_def
        replace_char_def path_join_def startswith_def endswith_def set_add_def classify_file_def
        attribute_file_def nearest_subpackage_def shared_prefix_def max_by_len_def
        resources_add_def)
  have h2: "''a.b'' \<in> dom [''a.b'' \<mapsto> {''c/data.txt''}]"
    by simp
  from resources_keys [OF h1 h2]
  have "\<exists>module filename real_filename.
         (module, filename, real_filename) \<in> set (iter_files ''d/src'' tree_example)
         \<and> ''a.b'' = nearest_subpackage module [''a'', ''a.b'']"
    by blast
  with h1 h2 show ?thesis by simp
qed

text \<open>
  The claim as it is stated fails on a chroot without packages: the resource is filed
  under its own module, which is not a package.
\<close>

theorem resources_key_counterexample:
  "find_packages (\<lambda>inits. Some []) ''d/src'' tree_resources_only =
     Inr ([], [], [''a'' \<mapsto> {''data.txt''}], [])
   \<and> ''a'' \<in> dom [''a'' \<mapsto> {''data.txt''}]
   \<and> ''a'' \<notin> set ([] :: string list)"
  by (simp add: find_packages_def tree_resources_only_def iter_files_def relpath_under_def
      replace_char_def path_join_def startswith_def endswith_def set_add_def classify_file_def
      attribute_file_def nearest_subpackage_def shared_prefix_def max_by_len_def
      resources_add_def)


section \<open>Properties of the closure\<close>

lemma walk_covers:
  "set pending \<union> set visited \<subseteq> set (fst (walk g visitor pending visited s))"
proof (induction g visitor pending visited s rule: walk.induct)
  case (1 g visitor visited s)
  show ?case by simp
next
  case (2 g visitor current pending visited s)
  show ?case
  proof (cases "current \<in> set visited")
    case True
    with "2.IH"(1) show ?thesis by auto
  next
    case False
    obtain k s' where v: "visitor current s = (k, s')" by (cases "visitor current s")
    from "2.IH"(2) [OF False v [symmetric]] False v show ?thesis by auto
  qed
qed

lemma walk_closed:
  assumes "\<And>c s. fst (visitor c s)"
    and "\<forall>x \<in> set visited. set (dependencies g x) \<subseteq> set visited \<union> set pending"
  shows "\<forall>x \<in> set (fst (walk g visitor pending visited s)).
           set (dependencies g x) \<subseteq> set (fst (walk g visitor pending visited s))"
  using assms
proof (induction g visitor pending visited s rule: walk.induct)
  case (1 g visitor visited s)
  then show ?case by simp
next
  case (2 g visitor current pending visited s)
  show ?case
  proof (cases "current \<in> set visited")
    case True
    have "\<forall>x \<in> set visited. set (dependencies g x) \<subseteq> set visited \<union> set pending"
      using "2.prems"(2) True by auto
    from "2.IH"(1) [OF True "2.prems"(1) this] True show ?thesis by simp
  next
    case False
    obtain k s' where v: "visitor current s = (k, s')" by (cases "visitor current s")
    have k: "k" using "2.prems"(1) [of current s] v by simp
    have "\<forall>x \<in> set (visited @ [current]).
        set (dependencies g x) \<subseteq> set (visited @ [current])
          \<union> set ((if k then dependencies g current else []) @ pending)"
      using "2.prems"(2) k by auto
    from "2.IH"(2) [OF False v [symmetric] "2.prems"(1) this] False v show ?thesis by simp
  qed
qed

lemma walk_sound:
  "set (fst (walk g visitor pending visited s)) \<subseteq>
     set visited \<union> (dependency_edges g)\<^sup>* `` set pending"
proof (induction g visitor pending visited s rule: walk.induct)
  case (1 g visitor visited s)
  show ?case by simp
next
  case (2 g visitor current pending visited s)
  show ?case
  proof (cases "current \<in> set visited")
    case True
    with "2.IH"(1) show ?thesis by auto
  next
    case False
    obtain k s' where v: "visitor current s = (k, s')" by (cases "visitor current s")
    have step: "(dependency_edges g)\<^sup>* `` set ((if k then dependencies g current else []) @ pending)
        \<subseteq> (dependency_edges g)\<^sup>* `` set (current # pending)"
    proof
      fix y
      assume "y \<in> (dependency_edges g)\<^sup>* `` set ((if k then dependencies g current else []) @ pending)"
      then obtain x where x: "x \<in> set ((if k then dependencies g current else []) @ pending)"
        "(x, y) \<in> (dependency_edges g)\<^sup>*"
        by blast
      show "y \<in> (dependency_edges g)\<^sup>* `` set (current # pending)"
      proof (cases "x \<in> set pending")
        case True
        with x(2) show ?thesis by auto
      next
        case False
        with x(1) have "x \<in> set (dependencies g current)" by (auto split: if_splits)
        then have "(current, x) \<in> dependency_edges g" by (simp add: dependency_edges_def)
        from this x(2) have "(current, y) \<in> (dependency_edges g)\<^sup>*"
          by (rule converse_rtrancl_into_rtrancl)
        then show ?thesis by auto
      qed
    qed
    from "2.IH"(2) [OF False v [symmetric]] False v
    have "set (fst (walk g visitor (current # pending) visited s)) \<subseteq>
        set (visited @ [current])
          \<union> (dependency_edges g)\<^sup>* `` set ((if k then dependencies g current else []) @ pending)"
      by simp
    also have "\<dots> \<subseteq> set visited \<union> (dependency_edges g)\<^sup>* `` set (current # pending)"
      using step by auto
    finally show ?thesis .
  qed
qed

lemma walk_collect_state:
  "s = visited \<Longrightarrow> snd (walk g collect pending visited s) = fst (walk g collect pending visited s)"
proof (induction g "collect :: address \<Rightarrow> address list \<Rightarrow> bool \<times> address list" pending visited s
    rule: walk.induct)
  case (1 g visited s)
  then show ?case by simp
next
  case (2 g current pending visited s)
  show ?case
  proof (cases "current \<in> set visited")
    case True
    with 2 show ?thesis by simp
  next
    case False
    have v: "collect current s = (True, s @ [current])" by (simp add: collect_def)
    have "s @ [current] = visited @ [current]" using "2.prems" by simp
    from "2.hyps"(2) [OF False v [symmetric] this] False v show ?thesis by simp
  qed
qed

lemma closure_of_walk: "closure_of g t = fst (walk g collect [t] [] [])"
  unfolding closure_of_def walk_from_def by (rule walk_collect_state) simp

lemma closure_of_distinct: "distinct (closure_of g t)"
  unfolding closure_of_walk by (rule walk_distinct) simp

lemma closure_of_reachable: "set (closure_of g t) = (dependency_edges g)\<^sup>* `` {t}"
proof
  show "set (closure_of g t) \<subseteq> (dependency_edges g)\<^sup>* `` {t}"
    unfolding closure_of_walk using walk_sound [of g collect "[t]" "[]" "[]"] by simp
next
  have start: "t \<in> set (closure_of g t)"
    unfolding closure_of_walk using walk_covers [of "[t]" "[]" g collect "[]"] by simp
  have closed: "\<forall>x \<in> set (closure_of g t). set (dependencies g x) \<subseteq> set (closure_of g t)"
    unfolding closure_of_walk by (rule walk_closed) (simp_all add: collect_def)
  show "(dependency_edges g)\<^sup>* `` {t} \<subseteq> set (closure_of g t)"
  proof
    fix y
    assume "y \<in> (dependency_edges g)\<^sup>* `` {t}"
    then have "(t, y) \<in> (dependency_edges g)\<^sup>*" by simp
    then show "y \<in> set (closure_of g t)"
    proof (induction rule: rtrancl_induct)
      case base
      show ?case by (rule start)
    next
      case (step y z)
      then have "z \<in> set (dependencies g y)" by (simp add: dependency_edges_def)
      with closed step.IH show ?case by blast
    qed
  qed
qed

lemma closure_of_self: "t \<in> set (closure_of g t)"
  by (simp add: closure_of_reachable)

lemma closure_of_trans:
  "b \<in> set (closure_of g a) \<Longrightarrow> set (closure_of g b) \<subseteq> set (closure_of g a)"
  unfolding closure_of_reachable by (auto intro: rtrancl_trans)

lemma closure_of_smaller:
  assumes "b \<in> set (closure_of g a)" and "a \<notin> set (closure_of g b)"
  shows "length (closure_of g b) < length (closure_of g a)"
proof -
  have "set (closure_of g b) \<subseteq> set (closure_of g a)"
    using assms(1) by (rule closure_of_trans)
  moreover have "a \<in> set (closure_of g a)" by (rule closure_of_self)
  ultimately have "set (closure_of g b) \<subset> set (closure_of g a)"
    using assms(2) by blast
  then have "card (set (closure_of g b)) < card (set (closure_of g a))"
    by (intro psubset_card_mono) simp_all
  then show ?thesis
    by (simp add: distinct_card closure_of_distinct)
qed

lemma get_target_without_binaries:
  "get_target (without_binaries g) a = (get_target g a)\<lparr>provided_binaries := []\<rparr>"
proof -
  have "map_of (without_binaries g) a = map_option (\<lambda>t. t\<lparr>provided_binaries := []\<rparr>) (map_of g a)"
    unfolding without_binaries_def by (simp add: map_of_map)
  then show ?thesis
    by (cases "map_of g a") (simp_all add: get_target_def unregistered_def)
qed

lemma dependencies_without_binaries:
  "dependencies (without_binaries g) a = dependencies_of (get_target g a)"
  by (simp add: dependencies_def get_target_without_binaries)

lemma dependency_edges_without_binaries: "dependency_edges (without_binaries g) = graph_edges g"
  by (simp add: dependency_edges_def graph_edges_def dependencies_without_binaries)

lemma dependency_closure_reachable: "set (dependency_closure g t) = (graph_edges g)\<^sup>* `` {t}"
  unfolding dependency_closure_def closure_of_reachable dependency_edges_without_binaries ..

lemma dependency_closure_smaller:
  assumes "(a, b) \<in> (graph_edges g)\<^sup>*" and "(b, a) \<notin> (graph_edges g)\<^sup>*"
  shows "length (dependency_closure g b) < length (dependency_closure g a)"
proof -
  have "b \<in> set (dependency_closure g a)"
    using assms(1) by (simp add: dependency_closure_reachable)
  moreover have "a \<notin> set (dependency_closure g b)"
    using assms(2) by (simp add: dependency_closure_reachable)
  ultimately show ?thesis
    unfolding dependency_closure_def by (rule closure_of_smaller)
qed

section \<open>Properties of the task\<close>

lemma path_join_nonempty: "b \<noteq> [] \<Longrightarrow> path_join a b \<noteq> []"
  by (simp add: path_join_def)

lemma create_setup_py_dir:
  "create_setup_py choice staging g dist_dir t = Inr (setup_dir, deps) \<Longrightarrow> setup_dir \<noteq> []"
  by (auto simp: create_setup_py_def path_join_nonempty split: option.splits sum.splits if_splits)

lemma create_dirs_nonempty:
  "create choice staging g recursive dist_dir pending created = Inr created'
     \<Longrightarrow> \<forall>d \<in> snd ` set created. d \<noteq> [] \<Longrightarrow> \<forall>d \<in> snd ` set created'. d \<noteq> []"
proof (induction choice staging g recursive dist_dir pending created rule: create.induct)
  case (1 choice staging g recursive dist_dir created)
  then show ?case by simp
next
  case (2 choice staging g recursive dist_dir t pending created)
  show ?case
  proof (cases "t \<in> fst ` set created")
    case True
    with "2.prems" "2.IH"(1) show ?thesis by simp
  next
    case False
    show ?thesis
    proof (cases "create_setup_py choice staging g dist_dir (subject_of g t)")
      case (Inl e)
      with False "2.prems"(1) show ?thesis by simp
    next
      case (Inr r)
      obtain setup_dir deps where r: "r = (setup_dir, deps)" by (cases r)
      with Inr have "setup_dir \<noteq> []" using create_setup_py_dir by blast
      with "2.prems"(2) have inv: "\<forall>d \<in> snd ` set (created @ [(t, setup_dir)]). d \<noteq> []"
        by auto
      have "create choice staging g recursive dist_dir
              ((if recursive then filter (is_exported_python_target g) deps else []) @ pending)
              (created @ [(t, setup_dir)]) = Inr created'"
        using "2.prems"(1) False Inr r by simp
      from "2.IH"(2) [OF False Inr r [symmetric] this inv] show ?thesis .
    qed
  qed
qed

lemma run_projects_prefix:
  assumes "\<forall>t \<in> set ts. \<exists>d. map_of created t = Some d \<and> d \<noteq> []"
  shows "\<exists>n. fst (run_projects packager created ts invoked) = invoked @ take n ts"
  using assms
proof (induction ts arbitrary: invoked)
  case Nil
  show ?case by simp
next
  case (Cons t ts)
  then obtain d where d: "map_of created t = Some d" "d \<noteq> []" by auto
  show ?case
  proof (cases "packager t d")
    case True
    from Cons.IH [of "invoked @ [t]"] Cons.prems obtain n where
      "fst (run_projects packager created ts (invoked @ [t])) = (invoked @ [t]) @ take n ts"
      by auto
    then have "fst (run_projects packager created (t # ts) invoked) = invoked @ take (Suc n) (t # ts)"
      using d True by simp
    then show ?thesis ..
  next
    case False
    then have "fst (run_projects packager created (t # ts) invoked) = invoked @ take (Suc 0) (t # ts)"
      using d by simp
    then show ?thesis ..
  qed
qed

lemma sorted_key_before:
  assumes "sorted (map f ys)" and "ys = pre @ a # post" and "b \<in> set ys" and "f b < (f a :: nat)"
  shows "b \<in> set pre"
proof (rule ccontr)
  assume "b \<notin> set pre"
  with assms(2,3) have "b = a \<or> b \<in> set post" by auto
  moreover have "b \<noteq> a" using assms(4) by auto
  ultimately have "b \<in> set post" by simp
  moreover have "\<forall>y \<in> set post. f a \<le> f y"
    using assms(1) unfolding assms(2) by (simp add: sorted_append)
  ultimately show False using assms(4) by auto
qed

lemma in_take_split:
  assumes "a \<in> set (take n ys)"
  shows "\<exists>pre post rest. take n ys = pre @ a # post \<and> ys = pre @ a # rest"
proof -
  from assms obtain pre post where tk: "take n ys = pre @ a # post"
    by (auto dest: split_list)
  have "ys = take n ys @ drop n ys" by simp
  then have "ys = pre @ a # (post @ drop n ys)" by (simp only: tk append_assoc append_Cons)
  with tk show ?thesis by blast
qed

text \<open>
  C9, as the code has it. The projects are run in the reverse of the order of
  \<open>sort_targets\<close>, which follows the dependency relation of the build graph: when the
  created target \<open>A\<close> depends on the created target \<open>B\<close> in the build graph, directly or
  through other targets, and \<open>B\<close> does not depend on \<open>A\<close>, the project of \<open>B\<close> is
  run before the project of \<open>A\<close>.
\<close>

theorem dependencies_run_first:
  assumes "create_all choice staging g recursive dist_dir target_roots = Inr created"
    and "execute choice staging packager g recursive dist_dir target_roots = (invoked, err)"
    and "A \<in> fst ` set created" and "B \<in> fst ` set created"
    and "(A, B) \<in> (graph_edges g)\<^sup>*" and "(B, A) \<notin> (graph_edges g)\<^sup>*"
    and "A \<in> set invoked"
  shows "\<exists>pre post. invoked = pre @ A # post \<and> B \<in> set pre"
proof -
  let ?f = "\<lambda>t. length (dependency_closure g t)"
  let ?order = "sort_key ?f (map fst created)"
  have order: "rev (sort_targets g (map fst created)) = ?order"
    by (simp add: sort_targets_def)
  have run: "run_projects packager created ?order [] = (invoked, err)"
    using assms(1,2) by (simp add: execute_def order)
  have "create choice staging g recursive dist_dir (exported_python_targets g target_roots) [] = Inr created"
    using assms(1) by (simp add: create_all_def split: if_splits)
  then have dirs: "\<forall>d \<in> snd ` set created. d \<noteq> []"
    by (rule create_dirs_nonempty) simp
  have "\<exists>d. map_of created t = Some d \<and> d \<noteq> []" if "t \<in> set ?order" for t
  proof -
    from that have "t \<in> fst ` set created" by simp
    then obtain d where d: "map_of created t = Some d"
      by (cases "map_of created t") (auto simp: map_of_eq_None_iff)
    then have "(t, d) \<in> set created" by (rule map_of_SomeD)
    then have "d \<in> snd ` set created" by force
    with dirs d show ?thesis by blast
  qed
  then obtain n where "fst (run_projects packager created ?order []) = [] @ take n ?order"
    using run_projects_prefix [of ?order created packager "[]"] by blast
  with run have inv: "invoked = take n ?order" by simp
  with assms(7) obtain pre post rest where
    split: "take n ?order = pre @ A # post" "?order = pre @ A # rest"
    using in_take_split by metis
  have "?f B < ?f A"
    using assms(5,6) by (rule dependency_closure_smaller)
  moreover have "B \<in> set ?order" using assms(4) by simp
  moreover have "sorted (map ?f ?order)" by (rule sorted_sort_key)
  ultimately have "B \<in> set pre"
    using split(2) sorted_key_before [of ?f ?order pre A rest B] by blast
  moreover have "invoked = pre @ A # post"
    using inv split(1) by simp
  ultimately show ?thesis by blast
qed

theorem dependencies_run_first_witness:
  "create_all (\<lambda>xs. 0) (\<lambda>t deps. True) graph_chain True ''dist'' [1] =
     Inr [(1, ''dist/one-1.0''), (2, ''dist/two-1.0'')]
   \<and> execute (\<lambda>xs. 0) (\<lambda>t deps. True) (\<lambda>t dir. True) graph_chain True ''dist'' [1] = ([2, 1], None)
   \<and> (1, 2) \<in> (graph_edges graph_chain)\<^sup>* \<and> (2, 1) \<notin> (graph_edges graph_chain)\<^sup>*
   \<and> (\<exists>pre post. [2, 1::nat] = pre @ 1 # post \<and> 2 \<in> set pre)"
proof -
  have c: "create_all (\<lambda>xs. 0) (\<lambda>t deps. True) graph_chain True ''dist'' [1] =
     Inr [(1, ''dist/one-1.0''), (2, ''dist/two-1.0'')]"
    by code_simp
  have e: "execute (\<lambda>xs. 0) (\<lambda>t deps. True) (\<lambda>t dir. True) graph_chain True ''dist'' [1] = ([2, 1], None)"
    by code_simp
  have a: "1 \<in> fst ` set [(1::nat, ''dist/one-1.0''), (2, ''dist/two-1.0'')]" by simp
  have b: "2 \<in> fst ` set [(1::nat, ''dist/one-1.0''), (2, ''dist/two-1.0'')]" by simp
  have "2 \<in> set (dependency_closure graph_chain 1)" by code_simp
  then have r: "(1, 2) \<in> (graph_edges graph_chain)\<^sup>*"
    by (simp add: dependency_closure_reachable)
  have "1 \<notin> set (dependency_closure graph_chain 2)" by code_simp
  then have n: "(2, 1) \<notin> (graph_edges graph_chain)\<^sup>*"
    by (simp add: dependency_closure_reachable)
  have i: "1 \<in> set [2, 1::nat]" by simp
  from dependencies_run_first [OF c e a b r n i] c e r n show ?thesis by blast
qed

text \<open>
  The order follows the build graph, not the calculator's walk: in
  \<open>graph_provided_binary\<close> the walk leads from target \<open>2\<close> through its provided binary
  back to target \<open>1\<close>, but in the build graph \<open>1\<close> depends on \<open>2\<close> and \<open>2\<close> on
  nothing, and the project of \<open>2\<close> is run first.
\<close>

lemma provided_binary_example:
  "set (closure_of graph_provided_binary 2) = {1, 2, 3}
   \<and> dependency_closure graph_provided_binary 2 = [2]
   \<and> dependency_closure graph_provided_binary 1 = [1, 2]
   \<and> execute (\<lambda>xs. 0) (\<lambda>t deps. True) (\<lambda>t dir. True) graph_provided_binary False ''dist'' [1, 2] =
       ([2, 1], None)"
  by code_simp

text \<open>
  The claim as it is stated fails on \<open>graph_mutual\<close>: the reduced dependencies of
  target \<open>1\<close> hold target \<open>2\<close>, the owner of library \<open>3\<close>, although \<open>1\<close> does not
  depend on \<open>2\<close> in the build graph, and the project of \<open>1\<close> is run first. The
  reduced dependencies of \<open>2\<close> hold \<open>1\<close> as well, so no order of the two runs
  would do.
\<close>

theorem reduced_reference_order_counterexample:
  "create_all (\<lambda>xs. 0) (\<lambda>t deps. True) graph_mutual False ''dist'' [1, 2] =
     Inr [(1, ''dist/one-1.0''), (2, ''dist/two-1.0'')]
   \<and> reduced_dependencies (\<lambda>xs. 0) graph_mutual 1 = Inr [2, 4]
   \<and> reduced_dependencies (\<lambda>xs. 0) graph_mutual 2 = Inr [3, 1]
   \<and> execute (\<lambda>xs. 0) (\<lambda>t deps. True) (\<lambda>t dir. True) graph_mutual False ''dist'' [1, 2] = ([1, 2], None)"
  by code_simp

end
